theory Spec2Isabelle
  imports Main "HOL-Library.Product_Lexorder"
begin

section \<open>Cell codes, grids and Python indexing\<close>

text \<open>
  The level elements of \<^verbatim>\<open>pcg_generator.py\<close> (lines 13-19). A level matrix is a
  list of rows, each a list of one-character cell codes; positions are pairs
  \<open>(row, column)\<close> of Python integers.
\<close>

abbreviation WALL :: char where "WALL \<equiv> CHR ''#''"
abbreviation FLOOR :: char where "FLOOR \<equiv> CHR '' ''"
abbreviation PLAYER :: char where "PLAYER \<equiv> CHR ''@''"
abbreviation BOX :: char where "BOX \<equiv> CHR ''$''"
abbreviation GOAL :: char where "GOAL \<equiv> CHR ''.''"
abbreviation BOX_ON_GOAL :: char where "BOX_ON_GOAL \<equiv> CHR ''*''"
abbreviation PLAYER_ON_GOAL :: char where "PLAYER_ON_GOAL \<equiv> CHR ''+''"

type_synonym pos = "int \<times> int"
type_synonym matrix = "char list list"

text \<open>The exceptions the modelled code can raise; a raising call returns \<open>Inl\<close>.\<close>

datatype error = IndexError | ValueError | TypeError

text \<open>
  Python's list subscript: \<open>py_index n i\<close> is the place in a list of \<open>n\<close> elements
  that the index \<open>i\<close> denotes (a negative index counts from the end), if there is one.
  \<^verbatim>\<open>xs[i]\<close> and \<^verbatim>\<open>xs[i] = v\<close> raise \<^verbatim>\<open>IndexError\<close> when there is none.
\<close>

definition py_index :: "nat \<Rightarrow> int \<Rightarrow> nat option" where
  "py_index n i =
     (if 0 \<le> i \<and> i < int n then Some (nat i)
      else if - int n \<le> i \<and> i < 0 then Some (nat (int n + i))
      else None)"

definition py_get :: "'a list \<Rightarrow> int \<Rightarrow> error + 'a" where
  "py_get xs i = (case py_index (length xs) i of None \<Rightarrow> Inl IndexError | Some k \<Rightarrow> Inr (xs ! k))"

definition py_set :: "'a list \<Rightarrow> int \<Rightarrow> 'a \<Rightarrow> error + 'a list" where
  "py_set xs i v =
     (case py_index (length xs) i of None \<Rightarrow> Inl IndexError | Some k \<Rightarrow> Inr (xs[k := v]))"

text \<open>Sequencing of calls that may raise: the first exception ends the computation.\<close>

definition bind_err :: "error + 'a \<Rightarrow> ('a \<Rightarrow> error + 'b) \<Rightarrow> error + 'b" where
  "bind_err x f = (case x of Inl e \<Rightarrow> Inl e | Inr v \<Rightarrow> f v)"

text \<open>\<^verbatim>\<open>matrix[r][c]\<close> and \<^verbatim>\<open>matrix[r][c] = v\<close>.\<close>

definition cell :: "matrix \<Rightarrow> int \<Rightarrow> int \<Rightarrow> error + char" where
  "cell m r c = bind_err (py_get m r) (\<lambda>row. py_get row c)"

definition set_cell :: "matrix \<Rightarrow> int \<Rightarrow> int \<Rightarrow> char \<Rightarrow> error + matrix" where
  "set_cell m r c v =
     bind_err (py_get m r) (\<lambda>row.
     bind_err (py_set row c v) (\<lambda>row'.
     py_set m r row'))"

section \<open>State model: locating the player, the boxes and the goals\<close>

text \<open>
  \<^verbatim>\<open>get_player_and_boxes_positions\<close> (lines 91-101): one row-major scan; every
  player marker overwrites \<^verbatim>\<open>player_pos\<close>, every box is appended.
  \<open>scan_row r c row acc\<close> is the inner loop from column \<open>c\<close> on, \<open>scan_rows\<close>
  the outer loop.
\<close>

fun scan_row :: "int \<Rightarrow> int \<Rightarrow> char list \<Rightarrow> pos option \<times> pos list \<Rightarrow> pos option \<times> pos list" where
  "scan_row r c [] acc = acc"
| "scan_row r c (ch # row) (player_pos, box_positions) =
     scan_row r (c + 1) row
       (if ch = PLAYER \<or> ch = PLAYER_ON_GOAL then (Some (r, c), box_positions)
        else if ch = BOX \<or> ch = BOX_ON_GOAL then (player_pos, box_positions @ [(r, c)])
        else (player_pos, box_positions))"

fun scan_rows :: "int \<Rightarrow> matrix \<Rightarrow> pos option \<times> pos list \<Rightarrow> pos option \<times> pos list" where
  "scan_rows r [] acc = acc"
| "scan_rows r (row # rows) acc = scan_rows (r + 1) rows (scan_row r 0 row acc)"

definition get_player_and_boxes_positions :: "matrix \<Rightarrow> pos option \<times> pos list" where
  "get_player_and_boxes_positions matrix = scan_rows 0 matrix (None, [])"

text \<open>\<^verbatim>\<open>get_goal_positions\<close> (lines 103-110).\<close>

fun goal_row :: "int \<Rightarrow> int \<Rightarrow> char list \<Rightarrow> pos list \<Rightarrow> pos list" where
  "goal_row r c [] goal_positions = goal_positions"
| "goal_row r c (ch # row) goal_positions =
     goal_row r (c + 1) row
       (if ch = GOAL \<or> ch = BOX_ON_GOAL \<or> ch = PLAYER_ON_GOAL then goal_positions @ [(r, c)]
        else goal_positions)"

fun goal_rows :: "int \<Rightarrow> matrix \<Rightarrow> pos list \<Rightarrow> pos list" where
  "goal_rows r [] goal_positions = goal_positions"
| "goal_rows r (row # rows) goal_positions = goal_rows (r + 1) rows (goal_row r 0 row goal_positions)"

definition get_goal_positions :: "matrix \<Rightarrow> pos list" where
  "get_goal_positions matrix = goal_rows 0 matrix []"

text \<open>
  \<^verbatim>\<open>is_level_solved\<close> (lines 112-122), called with lists: empty arguments are not
  solved; otherwise both are turned into sets and compared by size and content.
\<close>

definition is_level_solved :: "pos list \<Rightarrow> pos list \<Rightarrow> bool" where
  "is_level_solved box_positions goal_positions =
     (if box_positions = [] \<or> goal_positions = [] then False
      else card (set box_positions) = card (set goal_positions)
           \<and> set box_positions = set goal_positions)"

section \<open>Deadlock classifier\<close>

subsection \<open>Simple deadlocks\<close>

text \<open>
  \<^verbatim>\<open>detect_simple_deadlocks\<close> (lines 124-187). \<open>rows, cols = len(matrix), len(matrix[0])\<close>
  raises on the empty matrix. The copy without boxes reads \<^verbatim>\<open>matrix[r][c]\<close> for every
  \<open>c < cols\<close>, which raises exactly when a row has fewer than \<open>cols\<close> cells; longer rows
  are cut at \<open>cols\<close>.
\<close>

definition clean_cell :: "char \<Rightarrow> char" where
  "clean_cell ch = (if ch = BOX then FLOOR else if ch = BOX_ON_GOAL then GOAL else ch)"

fun clean_rows :: "nat \<Rightarrow> matrix \<Rightarrow> error + matrix" where
  "clean_rows cols [] = Inr []"
| "clean_rows cols (row # rest) =
     (if length row < cols then Inl IndexError
      else bind_err (clean_rows cols rest) (\<lambda>rest'. Inr (map clean_cell (take cols row) # rest')))"

text \<open>The four directions, in the order every loop of the source lists them.\<close>

definition DIRS :: "(int \<times> int) list" where
  "DIRS = [(-1, 0), (1, 0), (0, -1), (0, 1)]"

definition in_bounds :: "int \<Rightarrow> int \<Rightarrow> int \<Rightarrow> int \<Rightarrow> bool" where
  "in_bounds rows cols r c = (0 \<le> r \<and> r < rows \<and> 0 \<le> c \<and> c < cols)"

definition free_square :: "char \<Rightarrow> bool" where
  "free_square ch = (ch = FLOOR \<or> ch = GOAL \<or> ch = PLAYER \<or> ch = PLAYER_ON_GOAL)"

text \<open>
  One direction of the inner loop (lines 159-176). Both positions are tested against the
  bounds before \<open>clean_matrix\<close> is indexed, and \<open>clean_matrix\<close> has exactly
  \<open>rows \<times> cols\<close> cells, so the reads cannot raise.
\<close>

definition simple_try :: "matrix \<Rightarrow> int \<Rightarrow> int \<Rightarrow> pos \<Rightarrow> pos list \<times> pos set \<Rightarrow> int \<times> int \<Rightarrow> pos list \<times> pos set" where
  "simple_try clean_matrix rows cols p qv d =
     (case (p, qv, d) of ((r, c), (queue, visited), (dr, dc)) \<Rightarrow>
        let box_r = r + dr; box_c = c + dc;
            player_r = box_r + dr; player_c = box_c + dc
        in if \<not> (in_bounds rows cols box_r box_c \<and> in_bounds rows cols player_r player_c)
           then (queue, visited)
           else if free_square (clean_matrix ! nat box_r ! nat box_c)
                 \<and> free_square (clean_matrix ! nat player_r ! nat player_c)
                 \<and> (box_r, box_c) \<notin> visited
           then (queue @ [(box_r, box_c)], insert (box_r, box_c) visited)
           else (queue, visited))"

definition grid :: "int \<Rightarrow> int \<Rightarrow> pos set" where
  "grid rows cols = {0..<rows} \<times> {0..<cols}"

lemma finite_grid: "finite (grid rows cols)"
  by (simp add: grid_def)

lemma simple_try_measure:
  "simple_try cm rows cols p (q, v) d = (q', v') \<Longrightarrow>
     length q' + card (grid rows cols - v') \<le> length q + card (grid rows cols - v)"
proof -
  assume a: "simple_try cm rows cols p (q, v) d = (q', v')"
  obtain r c dr dc where p: "p = (r, c)" and d: "d = (dr, dc)"
    by (cases p, cases d) auto
  show ?thesis
  proof (cases "q' = q \<and> v' = v")
    case True
    then show ?thesis by simp
  next
    case False
    with a p d have b: "in_bounds rows cols (r + dr) (c + dc)" "(r + dr, c + dc) \<notin> v"
      "q' = q @ [(r + dr, c + dc)]" "v' = insert (r + dr, c + dc) v"
      by (auto simp: simple_try_def Let_def split: if_splits)
    from b(1) have "(r + dr, c + dc) \<in> grid rows cols"
      by (auto simp: grid_def in_bounds_def)
    with b(2) have "(r + dr, c + dc) \<in> grid rows cols - v" by simp
    then have "card (grid rows cols - v - {(r + dr, c + dc)}) < card (grid rows cols - v)"
      by (meson card_Diff1_less finite_Diff finite_grid)
    moreover have "grid rows cols - v' = grid rows cols - v - {(r + dr, c + dc)}"
      using b(4) by auto
    ultimately show ?thesis using b(3) by simp
  qed
qed

lemma simple_fold_measure:
  "foldl (simple_try cm rows cols p) (q, v) ds = (q', v') \<Longrightarrow>
     length q' + card (grid rows cols - v') \<le> length q + card (grid rows cols - v)"
proof (induction ds arbitrary: q v)
  case Nil
  then show ?case by simp
next
  case (Cons d ds)
  obtain q1 v1 where s: "simple_try cm rows cols p (q, v) d = (q1, v1)"
    by (cases "simple_try cm rows cols p (q, v) d") auto
  with Cons.prems have "foldl (simple_try cm rows cols p) (q1, v1) ds = (q', v')" by simp
  from Cons.IH [OF this] simple_try_measure [OF s] show ?case by linarith
qed

text \<open>
  The \<^verbatim>\<open>while queue\<close> loop of one goal (lines 154-176): pop the head, record it as
  reachable, try the four directions. It ends because every appended square is a new
  square of the grid.
\<close>

function simple_bfs :: "matrix \<Rightarrow> int \<Rightarrow> int \<Rightarrow> pos list \<Rightarrow> pos set \<Rightarrow> pos set \<Rightarrow> pos set" where
  "simple_bfs clean_matrix rows cols [] visited reachable_squares = reachable_squares"
| "simple_bfs clean_matrix rows cols (p # queue) visited reachable_squares =
     (case foldl (simple_try clean_matrix rows cols p) (queue, visited) DIRS of
        (queue', visited') \<Rightarrow>
          simple_bfs clean_matrix rows cols queue' visited' (insert p reachable_squares))"
  by pat_completeness auto
termination
proof (relation "measure (\<lambda>(cm, rows, cols, q, v, rs). length q + card (grid rows cols - v))",
    goal_cases)
  case 1
  then show ?case by simp
next
  case (2 cm rows cols p queue visited rs queue' visited')
  from simple_fold_measure [OF 2 [symmetric]] show ?case by simp
qed

text \<open>The loop over the goals: \<open>reachable_squares\<close> is shared, \<open>visited\<close> is per goal.\<close>

fun simple_goals :: "matrix \<Rightarrow> int \<Rightarrow> int \<Rightarrow> pos list \<Rightarrow> pos set \<Rightarrow> pos set" where
  "simple_goals clean_matrix rows cols [] reachable_squares = reachable_squares"
| "simple_goals clean_matrix rows cols (g # goals) reachable_squares =
     simple_goals clean_matrix rows cols goals
       (simple_bfs clean_matrix rows cols [g] {g} reachable_squares)"

definition floor_like :: "char \<Rightarrow> bool" where
  "floor_like ch = (ch = FLOOR \<or> ch = GOAL \<or> ch = PLAYER \<or> ch = PLAYER_ON_GOAL
                    \<or> ch = BOX \<or> ch = BOX_ON_GOAL)"

definition detect_simple_deadlocks :: "matrix \<Rightarrow> error + pos set" where
  "detect_simple_deadlocks matrix =
     (if matrix = [] then Inl IndexError
      else let rows = length matrix; cols = length (hd matrix);
               goal_positions = get_goal_positions matrix
           in bind_err (clean_rows cols matrix) (\<lambda>clean_matrix.
              let reachable_squares =
                    simple_goals clean_matrix (int rows) (int cols) goal_positions {}
              in Inr (set (concat (map (\<lambda>r. concat (map (\<lambda>c.
                        if floor_like (clean_matrix ! r ! c)
                           \<and> (int r, int c) \<notin> reachable_squares
                           \<and> (int r, int c) \<notin> set goal_positions
                        then [(int r, int c)] else []) [0..<cols])) [0..<rows])))))"

subsection \<open>Freeze deadlocks\<close>

lemma bind_err_cong [fundef_cong]:
  "x = x' \<Longrightarrow> (\<And>v. x' = Inr v \<Longrightarrow> f v = f' v) \<Longrightarrow> bind_err x f = bind_err x' f'"
  by (auto simp: bind_err_def split: sum.splits)

text \<open>
  One side of a box in \<^verbatim>\<open>is_box_blocked\<close> (lines 219-223 and the three copies
  after it): blocked at the edge of the grid or by a wall; next to a box, blocked if the
  recursive call on that box says so; free otherwise. The neighbour is read only when
  the box is not at the edge.
\<close>

definition side_blocked ::
  "bool \<Rightarrow> error + char \<Rightarrow> (pos set \<Rightarrow> error + bool \<times> pos set) \<Rightarrow> pos set \<Rightarrow> error + bool \<times> pos set" where
  "side_blocked at_edge neighbour recurse checked_boxes =
     (if at_edge then Inr (True, checked_boxes)
      else bind_err neighbour (\<lambda>ch.
        if ch = WALL then Inr (True, checked_boxes)
        else if ch = BOX \<or> ch = BOX_ON_GOAL then recurse checked_boxes
        else Inr (False, checked_boxes)))"

lemma side_blocked_cong [fundef_cong]:
  "at_edge = at_edge' \<Longrightarrow> neighbour = neighbour' \<Longrightarrow> checked = checked' \<Longrightarrow>
   (\<And>ch. \<not> at_edge' \<Longrightarrow> neighbour' = Inr ch \<Longrightarrow> ch = BOX \<or> ch = BOX_ON_GOAL \<Longrightarrow>
      recurse checked' = recurse' checked') \<Longrightarrow>
   side_blocked at_edge neighbour recurse checked = side_blocked at_edge' neighbour' recurse' checked'"
  by (auto simp: side_blocked_def bind_err_def split: sum.splits)

datatype axis = Horizontal | Vertical

text \<open>
  \<^verbatim>\<open>is_box_blocked\<close> (lines 197-254), the helper nested in
  \<^verbatim>\<open>detect_freeze_deadlocks\<close>. The set \<open>checked_boxes\<close> is one object that every
  recursive call extends in place, so the model returns it with the answer and passes it on
  to the next call.
\<close>

function is_box_blocked ::
  "matrix \<Rightarrow> pos list \<Rightarrow> int \<Rightarrow> int \<Rightarrow> pos \<Rightarrow> axis \<Rightarrow> pos set \<Rightarrow> error + bool \<times> pos set" where
  "is_box_blocked matrix goal_positions rows cols (box_r, box_c) axis checked_boxes =
     (if (box_r, box_c) \<in> checked_boxes then Inr (True, checked_boxes)
      else if (box_r, box_c) \<in> set goal_positions
      then Inr (False, insert (box_r, box_c) checked_boxes)
      else (case axis of
        Horizontal \<Rightarrow>
          bind_err (side_blocked (box_c = 0) (cell matrix box_r (box_c - 1))
                      (is_box_blocked matrix goal_positions rows cols (box_r, box_c - 1) Vertical)
                      (insert (box_r, box_c) checked_boxes))
            (\<lambda>(left_blocked, checked1).
          bind_err (side_blocked (box_c = cols - 1) (cell matrix box_r (box_c + 1))
                      (is_box_blocked matrix goal_positions rows cols (box_r, box_c + 1) Vertical)
                      checked1)
            (\<lambda>(right_blocked, checked2).
          Inr (left_blocked \<and> right_blocked, checked2)))
      | Vertical \<Rightarrow>
          bind_err (side_blocked (box_r = 0) (cell matrix (box_r - 1) box_c)
                      (is_box_blocked matrix goal_positions rows cols (box_r - 1, box_c) Horizontal)
                      (insert (box_r, box_c) checked_boxes))
            (\<lambda>(up_blocked, checked1).
          bind_err (side_blocked (box_r = rows - 1) (cell matrix (box_r + 1) box_c)
                      (is_box_blocked matrix goal_positions rows cols (box_r + 1, box_c) Horizontal)
                      checked1)
            (\<lambda>(down_blocked, checked2).
          Inr (up_blocked \<and> down_blocked, checked2)))))"
  by pat_completeness auto

lemma side_blocked_grows:
  assumes "side_blocked e n recurse ch = Inr (b, ch')"
    and "\<And>x b' c'. \<not> e \<Longrightarrow> n = Inr x \<Longrightarrow> x = BOX \<or> x = BOX_ON_GOAL \<Longrightarrow>
            recurse ch = Inr (b', c') \<Longrightarrow> ch \<subseteq> c'"
  shows "ch \<subseteq> ch'"
  using assms by (auto simp: side_blocked_def bind_err_def split: if_splits sum.splits)

lemma is_box_blocked_grows:
  "is_box_blocked_dom (m, gs, rows, cols, p, ax, ch) \<Longrightarrow>
   is_box_blocked m gs rows cols p ax ch = Inr (b, ch') \<Longrightarrow> ch \<subseteq> ch'"
proof (induction m gs rows cols p ax ch arbitrary: b ch' rule: is_box_blocked.pinduct)
  case (1 m gs rows cols box_r box_c ax ch)
  note dom = "1.hyps"
  note eq = "1.prems" [unfolded is_box_blocked.psimps [OF dom]]
  show ?case
  proof (cases "(box_r, box_c) \<in> ch \<or> (box_r, box_c) \<in> set gs")
    case True
    with eq show ?thesis by (auto split: if_splits)
  next
    case False
    show ?thesis
    proof (cases ax)
      case Horizontal
      with False eq obtain lb c1 rb where
        l: "side_blocked (box_c = 0) (cell m box_r (box_c - 1))
              (is_box_blocked m gs rows cols (box_r, box_c - 1) Vertical)
              (insert (box_r, box_c) ch) = Inr (lb, c1)"
        and r: "side_blocked (box_c = cols - 1) (cell m box_r (box_c + 1))
              (is_box_blocked m gs rows cols (box_r, box_c + 1) Vertical) c1 = Inr (rb, ch')"
        by (auto simp: bind_err_def split: sum.splits prod.splits)
      have "insert (box_r, box_c) ch \<subseteq> c1"
      proof (rule side_blocked_grows [OF l])
        fix x b' c'
        assume "box_c \<noteq> 0" "cell m box_r (box_c - 1) = Inr x" "x = BOX \<or> x = BOX_ON_GOAL"
          "is_box_blocked m gs rows cols (box_r, box_c - 1) Vertical (insert (box_r, box_c) ch) = Inr (b', c')"
        with "1.IH"(1) [of x b' c'] False Horizontal
        show "insert (box_r, box_c) ch \<subseteq> c'" by blast
      qed
      moreover have "c1 \<subseteq> ch'"
      proof (rule side_blocked_grows [OF r])
        fix x b' c'
        assume "box_c \<noteq> cols - 1" "cell m box_r (box_c + 1) = Inr x" "x = BOX \<or> x = BOX_ON_GOAL"
          "is_box_blocked m gs rows cols (box_r, box_c + 1) Vertical c1 = Inr (b', c')"
        with "1.IH"(2) [of "(lb, c1)" lb c1 x b' c'] False Horizontal l
        show "c1 \<subseteq> c'" by simp
      qed
      ultimately show ?thesis by auto
    next
      case Vertical
      with False eq obtain lb c1 rb where
        l: "side_blocked (box_r = 0) (cell m (box_r - 1) box_c)
              (is_box_blocked m gs rows cols (box_r - 1, box_c) Horizontal)
              (insert (box_r, box_c) ch) = Inr (lb, c1)"
        and r: "side_blocked (box_r = rows - 1) (cell m (box_r + 1) box_c)
              (is_box_blocked m gs rows cols (box_r + 1, box_c) Horizontal) c1 = Inr (rb, ch')"
        by (auto simp: bind_err_def split: sum.splits prod.splits)
      have "insert (box_r, box_c) ch \<subseteq> c1"
      proof (rule side_blocked_grows [OF l])
        fix x b' c'
        assume "box_r \<noteq> 0" "cell m (box_r - 1) box_c = Inr x" "x = BOX \<or> x = BOX_ON_GOAL"
          "is_box_blocked m gs rows cols (box_r - 1, box_c) Horizontal (insert (box_r, box_c) ch) = Inr (b', c')"
        with "1.IH"(3) [of x b' c'] False Vertical
        show "insert (box_r, box_c) ch \<subseteq> c'" by blast
      qed
      moreover have "c1 \<subseteq> ch'"
      proof (rule side_blocked_grows [OF r])
        fix x b' c'
        assume "box_r \<noteq> rows - 1" "cell m (box_r + 1) box_c = Inr x" "x = BOX \<or> x = BOX_ON_GOAL"
          "is_box_blocked m gs rows cols (box_r + 1, box_c) Horizontal c1 = Inr (b', c')"
        with "1.IH"(4) [of "(lb, c1)" lb c1 x b' c'] False Vertical l
        show "c1 \<subseteq> c'" by simp
      qed
      ultimately show ?thesis by auto
    qed
  qed
qed


text \<open>
  Termination: a recursive call is made on a square that holds a box, so on a square the
  matrix can be indexed at (Python accepts negative indices), and it adds a square to
  \<open>checked_boxes\<close> unless it returns at once.
\<close>

definition maxlen :: "matrix \<Rightarrow> nat" where
  "maxlen m = foldr (\<lambda>row n. max (length row) n) m 0"

definition region :: "matrix \<Rightarrow> pos set" where
  "region m = {- int (length m) ..< int (length m)} \<times> {- int (maxlen m) ..< int (maxlen m)}"

lemma finite_region: "finite (region m)"
  by (simp add: region_def)

lemma length_le_maxlen: "row \<in> set m \<Longrightarrow> length row \<le> maxlen m"
  by (induction m) (auto simp: maxlen_def)

lemma py_get_Inr:
  "py_get xs i = Inr x \<Longrightarrow> - int (length xs) \<le> i \<and> i < int (length xs) \<and> x \<in> set xs"
  by (auto simp: py_get_def py_index_def split: if_splits option.splits)

lemma cell_region: "cell m r c = Inr ch \<Longrightarrow> (r, c) \<in> region m"
proof -
  assume "cell m r c = Inr ch"
  then obtain row where a: "py_get m r = Inr row" and b: "py_get row c = Inr ch"
    by (auto simp: cell_def bind_err_def split: sum.splits)
  from py_get_Inr [OF a] py_get_Inr [OF b] length_le_maxlen [of row m]
  show ?thesis by (auto simp: region_def)
qed

definition freeze_rel ::
  "((matrix \<times> pos list \<times> int \<times> int \<times> pos \<times> axis \<times> pos set) \<times>
    (matrix \<times> pos list \<times> int \<times> int \<times> pos \<times> axis \<times> pos set)) set" where
  "freeze_rel = inv_image (less_than <*lex*> less_than)
     (\<lambda>(m, gs, rows, cols, p, ax, ch). (card (region m - ch - {p}), if p \<in> ch then 0 else 1::nat))"

lemma wf_freeze_rel: "wf freeze_rel"
  unfolding freeze_rel_def by (intro wf_inv_image wf_lex_prod wf_less_than)

lemma freeze_rel_step:
  assumes "y \<in> region m" "y \<noteq> p" "p \<notin> ch" "insert p ch \<subseteq> c2"
  shows "((m, gs, rows, cols, y, ax', c2), (m, gs, rows, cols, p, ax, ch)) \<in> freeze_rel"
proof (cases "y \<in> c2")
  case True
  have "region m - c2 - {y} \<subseteq> region m - ch - {p}" using assms by auto
  then have "card (region m - c2 - {y}) \<le> card (region m - ch - {p})"
    by (intro card_mono) (auto simp: finite_region)
  with True assms(3) show ?thesis by (auto simp: freeze_rel_def)
next
  case False
  have "region m - c2 - {y} \<subset> region m - ch - {p}" using assms False by auto
  then have "card (region m - c2 - {y}) < card (region m - ch - {p})"
    by (intro psubset_card_mono) (auto simp: finite_region)
  then show ?thesis by (auto simp: freeze_rel_def)
qed

termination is_box_blocked
proof (relation freeze_rel, goal_cases)
  case 1
  show ?case by (rule wf_freeze_rel)
next
  case (2 m gs rows cols box_r box_c ax ch x)
  then show ?case by (intro freeze_rel_step cell_region [of _ _ _ x]) auto
next
  case (3 m gs rows cols box_r box_c ax ch v lb c1 x)
  have "insert (box_r, box_c) ch \<subseteq> c1"
  proof (rule side_blocked_grows)
    show "side_blocked (box_c = 0) (cell m box_r (box_c - 1))
        (is_box_blocked m gs rows cols (box_r, box_c - 1) Vertical) (insert (box_r, box_c) ch) = Inr (lb, c1)"
      using 3 by simp
  next
    fix x b' c'
    assume "box_c \<noteq> 0" "cell m box_r (box_c - 1) = Inr x" "x = BOX \<or> x = BOX_ON_GOAL"
      "is_box_blocked m gs rows cols (box_r, box_c - 1) Vertical (insert (box_r, box_c) ch) = Inr (b', c')"
    with 3(9) [of x] show "insert (box_r, box_c) ch \<subseteq> c'"
      by (intro is_box_blocked_grows) auto
  qed
  with 3 show ?case by (intro freeze_rel_step cell_region [of _ _ _ x]) auto
next
  case (4 m gs rows cols box_r box_c ax ch x)
  then show ?case by (intro freeze_rel_step cell_region [of _ _ _ x]) auto
next
  case (5 m gs rows cols box_r box_c ax ch v lb c1 x)
  have "insert (box_r, box_c) ch \<subseteq> c1"
  proof (rule side_blocked_grows)
    show "side_blocked (box_r = 0) (cell m (box_r - 1) box_c)
        (is_box_blocked m gs rows cols (box_r - 1, box_c) Horizontal) (insert (box_r, box_c) ch) = Inr (lb, c1)"
      using 5 by simp
  next
    fix x b' c'
    assume "box_r \<noteq> 0" "cell m (box_r - 1) box_c = Inr x" "x = BOX \<or> x = BOX_ON_GOAL"
      "is_box_blocked m gs rows cols (box_r - 1, box_c) Horizontal (insert (box_r, box_c) ch) = Inr (b', c')"
    with 5(9) [of x] show "insert (box_r, box_c) ch \<subseteq> c'"
      by (intro is_box_blocked_grows) auto
  qed
  with 5 show ?case by (intro freeze_rel_step cell_region [of _ _ _ x]) auto
qed


text \<open>
  The loop of \<^verbatim>\<open>detect_freeze_deadlocks\<close> over the boxes (lines 257-270): boxes on
  goals are skipped; each other box is checked along both axes, each check with a fresh
  \<open>checked_boxes\<close>.
\<close>

fun freeze_boxes :: "matrix \<Rightarrow> pos list \<Rightarrow> int \<Rightarrow> int \<Rightarrow> pos list \<Rightarrow> error + bool" where
  "freeze_boxes matrix goal_positions rows cols [] = Inr False"
| "freeze_boxes matrix goal_positions rows cols (box # boxes) =
     (if box \<in> set goal_positions then freeze_boxes matrix goal_positions rows cols boxes
      else bind_err (is_box_blocked matrix goal_positions rows cols box Horizontal {})
             (\<lambda>(horizontal_blocked, _).
           bind_err (is_box_blocked matrix goal_positions rows cols box Vertical {})
             (\<lambda>(vertical_blocked, _).
           if horizontal_blocked \<and> vertical_blocked then Inr True
           else freeze_boxes matrix goal_positions rows cols boxes)))"

definition detect_freeze_deadlocks :: "matrix \<Rightarrow> pos list \<Rightarrow> pos list \<Rightarrow> error + bool" where
  "detect_freeze_deadlocks matrix box_positions goal_positions =
     (if matrix = [] then Inl IndexError
      else freeze_boxes matrix goal_positions (int (length matrix)) (int (length (hd matrix)))
             box_positions)"

subsection \<open>Corral deadlocks\<close>

text \<open>
  \<^verbatim>\<open>detect_corral_deadlocks\<close> (lines 272-314). One direction of the flood fill
  (lines 287-294): the bounds are tested against \<open>len(matrix[0])\<close> before the matrix
  itself is read.
\<close>

definition corral_try ::
  "matrix \<Rightarrow> int \<Rightarrow> int \<Rightarrow> pos \<Rightarrow> error + pos list \<times> pos set \<Rightarrow> int \<times> int \<Rightarrow> error + pos list \<times> pos set" where
  "corral_try matrix rows cols p qr d =
     bind_err qr (\<lambda>(queue, reachable).
       case (p, d) of ((r, c), (dr, dc)) \<Rightarrow>
         let nr = r + dr; nc = c + dc
         in if \<not> in_bounds rows cols nr nc then Inr (queue, reachable)
            else bind_err (cell matrix nr nc) (\<lambda>ch.
              if \<not> (ch = WALL \<or> ch = BOX \<or> ch = BOX_ON_GOAL) \<and> (nr, nc) \<notin> reachable
              then Inr (queue @ [(nr, nc)], insert (nr, nc) reachable)
              else Inr (queue, reachable)))"

lemma corral_try_measure:
  "corral_try m rows cols p (Inr (q, v)) d = Inr (q', v') \<Longrightarrow>
     length q' + card (grid rows cols - v') \<le> length q + card (grid rows cols - v)"
proof -
  assume a: "corral_try m rows cols p (Inr (q, v)) d = Inr (q', v')"
  obtain r c dr dc where p: "p = (r, c)" and d: "d = (dr, dc)"
    by (cases p, cases d) auto
  show ?thesis
  proof (cases "q' = q \<and> v' = v")
    case True
    then show ?thesis by simp
  next
    case False
    with a p d have b: "in_bounds rows cols (r + dr) (c + dc)" "(r + dr, c + dc) \<notin> v"
      "q' = q @ [(r + dr, c + dc)]" "v' = insert (r + dr, c + dc) v"
      by (auto simp: corral_try_def bind_err_def Let_def split: if_splits sum.splits)
    from b(1) have "(r + dr, c + dc) \<in> grid rows cols"
      by (auto simp: grid_def in_bounds_def)
    with b(2) have "(r + dr, c + dc) \<in> grid rows cols - v" by simp
    then have "card (grid rows cols - v - {(r + dr, c + dc)}) < card (grid rows cols - v)"
      by (meson card_Diff1_less finite_Diff finite_grid)
    moreover have "grid rows cols - v' = grid rows cols - v - {(r + dr, c + dc)}"
      using b(4) by auto
    ultimately show ?thesis using b(3) by simp
  qed
qed

lemma corral_try_Inl [simp]: "corral_try m rows cols p (Inl e) d = Inl e"
  by (simp add: corral_try_def bind_err_def)

lemma corral_fold_Inl [simp]: "foldl (corral_try m rows cols p) (Inl e) ds = Inl e"
  by (induction ds) auto

lemma corral_fold_measure:
  "foldl (corral_try m rows cols p) (Inr (q, v)) ds = Inr (q', v') \<Longrightarrow>
     length q' + card (grid rows cols - v') \<le> length q + card (grid rows cols - v)"
proof (induction ds arbitrary: q v)
  case Nil
  then show ?case by simp
next
  case (Cons d ds)
  show ?case
  proof (cases "corral_try m rows cols p (Inr (q, v)) d")
    case (Inl e)
    with Cons.prems show ?thesis by simp
  next
    case (Inr qv)
    obtain q1 v1 where qv: "qv = (q1, v1)" by (cases qv)
    with Inr Cons.prems have "foldl (corral_try m rows cols p) (Inr (q1, v1)) ds = Inr (q', v')"
      by simp
    from Cons.IH [OF this] corral_try_measure [OF Inr [unfolded qv]] show ?thesis by linarith
  qed
qed

function corral_bfs :: "matrix \<Rightarrow> int \<Rightarrow> int \<Rightarrow> pos list \<Rightarrow> pos set \<Rightarrow> error + pos set" where
  "corral_bfs matrix rows cols [] reachable = Inr reachable"
| "corral_bfs matrix rows cols (p # queue) reachable =
     bind_err (foldl (corral_try matrix rows cols p) (Inr (queue, reachable)) DIRS)
       (\<lambda>(queue', reachable'). corral_bfs matrix rows cols queue' reachable')"
  by pat_completeness auto
termination
proof (relation "measure (\<lambda>(m, rows, cols, q, v). length q + card (grid rows cols - v))",
    goal_cases)
  case 1
  then show ?case by simp
next
  case (2 m rows cols p queue reachable qv queue' reachable')
  then have "foldl (corral_try m rows cols p) (Inr (queue, reachable)) DIRS = Inr (queue', reachable')"
    by simp
  from corral_fold_measure [OF this] show ?case by simp
qed

text \<open>
  The loop over the boxes (lines 297-312): a box off the goals with no reachable
  neighbour inside the grid is a corral deadlock.
\<close>

fun corral_boxes :: "int \<Rightarrow> int \<Rightarrow> pos set \<Rightarrow> pos list \<Rightarrow> pos list \<Rightarrow> bool" where
  "corral_boxes rows cols reachable goal_positions [] = False"
| "corral_boxes rows cols reachable goal_positions ((box_r, box_c) # boxes) =
     (if (box_r, box_c) \<in> set goal_positions
      then corral_boxes rows cols reachable goal_positions boxes
      else if list_ex (\<lambda>(dr, dc). in_bounds rows cols (box_r + dr) (box_c + dc)
                        \<and> (box_r + dr, box_c + dc) \<in> reachable) DIRS
      then corral_boxes rows cols reachable goal_positions boxes
      else True)"

definition detect_corral_deadlocks :: "matrix \<Rightarrow> pos \<Rightarrow> pos list \<Rightarrow> pos list \<Rightarrow> error + bool" where
  "detect_corral_deadlocks matrix player_pos box_positions goal_positions =
     (if matrix = [] then Inl IndexError
      else let rows = int (length matrix); cols = int (length (hd matrix))
           in bind_err (corral_bfs matrix rows cols [player_pos] {player_pos}) (\<lambda>reachable.
              Inr (corral_boxes rows cols reachable goal_positions box_positions)))"

subsection \<open>The combined verdict and level validity\<close>

text \<open>\<^verbatim>\<open>has_deadlock\<close> (lines 316-341).\<close>

definition has_deadlock :: "matrix \<Rightarrow> error + bool" where
  "has_deadlock matrix =
     (case get_player_and_boxes_positions matrix of (player_pos, box_positions) \<Rightarrow>
      let goal_positions = get_goal_positions matrix in
      case player_pos of
        None \<Rightarrow> Inr True
      | Some player \<Rightarrow>
          if box_positions = [] \<or> goal_positions = [] then Inr True
          else bind_err (detect_simple_deadlocks matrix) (\<lambda>simple_deadlock_squares.
            if list_ex (\<lambda>box. box \<in> simple_deadlock_squares \<and> box \<notin> set goal_positions)
                 box_positions
            then Inr True
            else bind_err (detect_freeze_deadlocks matrix box_positions goal_positions) (\<lambda>freeze.
              if freeze then Inr True
              else bind_err (detect_corral_deadlocks matrix player box_positions goal_positions)
                (\<lambda>corral. if corral then Inr True else Inr False))))"

text \<open>\<^verbatim>\<open>is_valid_level\<close> (lines 343-375).\<close>

definition is_valid_level :: "matrix \<Rightarrow> error + bool" where
  "is_valid_level matrix =
     (case get_player_and_boxes_positions matrix of (player_pos, box_positions) \<Rightarrow>
      let goal_positions = get_goal_positions matrix in
      if player_pos = None \<or> box_positions = [] \<or> goal_positions = [] then Inr False
      else if length box_positions \<noteq> length goal_positions then Inr False
      else let boxes_on_goals = length (filter (\<lambda>box_pos. box_pos \<in> set goal_positions) box_positions)
           in if boxes_on_goals = length box_positions then Inr False
              else if boxes_on_goals > 1 then Inr False
              else bind_err (has_deadlock matrix) (\<lambda>deadlock.
                if deadlock then Inr False else Inr True))"

section \<open>Breadth-first solver\<close>

text \<open>
  The body of the direction loop of \<^verbatim>\<open>solve_sokoban_bfs\<close> up to \<open>valid_move\<close>
  (lines 420-465), the move operation of the core. \<open>next_matrix\<close> is a copy of the
  current matrix, so a move gives a new matrix. The result is \<open>None\<close> when the loop
  goes on to the next direction without a move (\<^verbatim>\<open>continue\<close>, or \<open>valid_move\<close> left
  false), and otherwise the new matrix, the new player position and the new box list.
  \<^verbatim>\<open>list.remove\<close> raises \<^verbatim>\<open>ValueError\<close> when the element is absent.
\<close>

definition try_move ::
  "matrix \<Rightarrow> pos \<Rightarrow> pos list \<Rightarrow> int \<times> int \<Rightarrow> error + (matrix \<times> pos \<times> pos list) option" where
  "try_move current_matrix current_player_pos current_box_positions d =
     (case (current_player_pos, d) of ((player_r, player_c), (dr, dc)) \<Rightarrow>
      let new_player_r = player_r + dr; new_player_c = player_c + dc;
          rows = int (length current_matrix); cols = int (length (hd current_matrix))
      in if \<not> in_bounds rows cols new_player_r new_player_c then Inr None
         else bind_err (cell current_matrix new_player_r new_player_c) (\<lambda>char_at_new_pos.
           if char_at_new_pos = FLOOR \<or> char_at_new_pos = GOAL then
             bind_err (set_cell current_matrix new_player_r new_player_c
                         (if char_at_new_pos = GOAL then PLAYER_ON_GOAL else PLAYER)) (\<lambda>m1.
             bind_err (cell m1 player_r player_c) (\<lambda>old.
             bind_err (set_cell m1 player_r player_c
                         (if old = PLAYER_ON_GOAL then GOAL else FLOOR)) (\<lambda>m2.
             Inr (Some (m2, (new_player_r, new_player_c), current_box_positions)))))
           else if char_at_new_pos = BOX \<or> char_at_new_pos = BOX_ON_GOAL then
             let pushed_box_r = new_player_r + dr; pushed_box_c = new_player_c + dc
             in if \<not> in_bounds rows cols pushed_box_r pushed_box_c then Inr None
                else bind_err (cell current_matrix pushed_box_r pushed_box_c) (\<lambda>char_beyond_box.
                  if char_beyond_box = FLOOR \<or> char_beyond_box = GOAL then
                    if (new_player_r, new_player_c) \<notin> set current_box_positions
                    then Inl ValueError
                    else
                      let new_box_positions =
                            remove1 (new_player_r, new_player_c) current_box_positions
                              @ [(pushed_box_r, pushed_box_c)]
                      in bind_err (set_cell current_matrix pushed_box_r pushed_box_c
                                     (if char_beyond_box = GOAL then BOX_ON_GOAL else BOX)) (\<lambda>m1.
                         bind_err (set_cell m1 new_player_r new_player_c
                                     (if char_at_new_pos = BOX_ON_GOAL then PLAYER_ON_GOAL
                                      else PLAYER)) (\<lambda>m2.
                         bind_err (cell m2 player_r player_c) (\<lambda>old.
                         bind_err (set_cell m2 player_r player_c
                                     (if old = PLAYER_ON_GOAL then GOAL else FLOOR)) (\<lambda>m3.
                         Inr (Some (m3, (new_player_r, new_player_c), new_box_positions))))))
                  else Inr None)
           else Inr None))"

text \<open>The directions of the solver with their move characters (line 419).\<close>

definition MOVES :: "(int \<times> int \<times> char) list" where
  "MOVES = [(-1, 0, CHR ''U''), (1, 0, CHR ''D''), (0, -1, CHR ''L''), (0, 1, CHR ''R'')]"

text \<open>
  A loop that can \<^verbatim>\<open>return\<close> from the function in its body either returns or
  leaves with its state.
\<close>

datatype ('r, 's) loop = Return 'r | Continue 's

type_synonym state_key = "pos \<times> pos list"
type_synonym bfs_queue = "(matrix \<times> string) list"

text \<open>
  The direction loop for one dequeued state (lines 419-484): an unvisited successor that
  is solved ends the search with its path; one that \<^verbatim>\<open>has_deadlock\<close> flags is dropped;
  any other is marked visited and enqueued.
\<close>

fun expand ::
  "pos list \<Rightarrow> matrix \<Rightarrow> pos \<Rightarrow> pos list \<Rightarrow> string \<Rightarrow> (int \<times> int \<times> char) list \<Rightarrow>
   bfs_queue \<Rightarrow> state_key set \<Rightarrow> error + (string, bfs_queue \<times> state_key set) loop" where
  "expand goal_positions current_matrix current_player_pos current_box_positions current_path
      [] queue visited = Inr (Continue (queue, visited))"
| "expand goal_positions current_matrix current_player_pos current_box_positions current_path
      ((dr, dc, move_char) # moves) queue visited =
     bind_err (try_move current_matrix current_player_pos current_box_positions (dr, dc))
       (\<lambda>move. case move of
          None \<Rightarrow>
            expand goal_positions current_matrix current_player_pos current_box_positions
              current_path moves queue visited
        | Some (next_matrix, new_player_pos, new_box_positions) \<Rightarrow>
            let state_key = (new_player_pos, sort new_box_positions)
            in if state_key \<in> visited
               then expand goal_positions current_matrix current_player_pos
                      current_box_positions current_path moves queue visited
               else if is_level_solved new_box_positions goal_positions
               then Inr (Return (current_path @ [move_char]))
               else bind_err (has_deadlock next_matrix) (\<lambda>deadlock.
                 if deadlock
                 then expand goal_positions current_matrix current_player_pos
                        current_box_positions current_path moves queue visited
                 else expand goal_positions current_matrix current_player_pos
                        current_box_positions current_path moves
                        (queue @ [(next_matrix, current_path @ [move_char])])
                        (insert state_key visited)))"

text \<open>
  The \<^verbatim>\<open>while queue and iterations < max_iterations\<close> loop (lines 408-484); the
  first argument is the number of iterations still allowed. Subscripting a missing
  player position raises \<^verbatim>\<open>TypeError\<close>.
\<close>

fun bfs_loop :: "nat \<Rightarrow> pos list \<Rightarrow> bfs_queue \<Rightarrow> state_key set \<Rightarrow> error + string option" where
  "bfs_loop 0 goal_positions queue visited = Inr None"
| "bfs_loop (Suc n) goal_positions [] visited = Inr None"
| "bfs_loop (Suc n) goal_positions ((current_matrix, current_path) # queue) visited =
     (case get_player_and_boxes_positions current_matrix of
        (None, current_box_positions) \<Rightarrow> Inl TypeError
      | (Some current_player_pos, current_box_positions) \<Rightarrow>
          bind_err (expand goal_positions current_matrix current_player_pos
                      current_box_positions current_path MOVES queue visited)
            (\<lambda>r. case r of
               Return path \<Rightarrow> Inr (Some path)
             | Continue (queue', visited') \<Rightarrow> bfs_loop n goal_positions queue' visited'))"

text \<open>
  \<^verbatim>\<open>solve_sokoban_bfs\<close> (lines 379-487). \<open>Inr None\<close> is the source's \<open>None\<close> (no
  solution found), \<open>Inr (Some path)\<close> a returned path. \<open>initial_matrix[0]\<close> raises on
  the empty matrix.
\<close>

definition solve_sokoban_bfs :: "matrix \<Rightarrow> int \<Rightarrow> error + string option" where
  "solve_sokoban_bfs initial_matrix max_iterations =
     (if initial_matrix = [] then Inl IndexError
      else case get_player_and_boxes_positions initial_matrix of
        (initial_player_pos, initial_box_positions) \<Rightarrow>
          let goal_positions = get_goal_positions initial_matrix in
          case initial_player_pos of
            None \<Rightarrow> Inr None
          | Some player \<Rightarrow>
              if initial_box_positions = [] \<or> goal_positions = [] then Inr None
              else if is_level_solved initial_box_positions goal_positions then Inr (Some [])
              else bfs_loop (nat max_iterations) goal_positions [(initial_matrix, [])]
                     {(player, sort initial_box_positions)})"

text \<open>The default iteration budget of the solver.\<close>

definition solve :: "matrix \<Rightarrow> error + string option" where
  "solve initial_matrix = solve_sokoban_bfs initial_matrix 100000"

section \<open>The fallback bank\<close>

text \<open>\<^verbatim>\<open>FALLBACK_LEVELS\<close> (lines 23-87): five grids, each with its stored solution.\<close>

definition FALLBACK_LEVELS :: "(matrix \<times> string) list" where
  "FALLBACK_LEVELS =
    [([''#####'',
       ''#@  #'',
       ''# $.#'',
       ''#   #'',
       ''#####''], ''DR''),
     ([''######'',
       ''#    #'',
       ''#@$ .#'',
       ''# $ .#'',
       ''#    #'',
       ''######''], ''RRDRULDR''),
     ([''#######'',
       ''#     #'',
       ''# $ $ #'',
       ''# .@.$#'',
       ''#    .#'',
       ''#     #'',
       ''#######''], ''LURRDLLURRDR''),
     ([''#######'',
       ''#     #'',
       ''# ### #'',
       ''#@$ $.#'',
       ''# ###.#'',
       ''#    .#'',
       ''#######''], ''RRRULLDRRULDLURRD''),
     ([''########'',
       ''#  #   #'',
       ''# $#$  #'',
       ''#      #'',
       ''### ## #'',
       ''#...@  #'',
       ''#      #'',
       ''########''], ''UUULLDRULDDRUURRRDLULDLURD'')]"

section \<open>Grid contents\<close>

text \<open>
  The three kinds of marker a cell can carry, and \<open>marked P m\<close>, the positions of the
  cells of \<open>m\<close> that satisfy \<open>P\<close>, in row-major order. The scans of the source
  are characterised against these.
\<close>

definition is_player :: "char \<Rightarrow> bool" where
  "is_player ch = (ch = PLAYER \<or> ch = PLAYER_ON_GOAL)"

definition is_box :: "char \<Rightarrow> bool" where
  "is_box ch = (ch = BOX \<or> ch = BOX_ON_GOAL)"

definition is_goal :: "char \<Rightarrow> bool" where
  "is_goal ch = (ch = GOAL \<or> ch = BOX_ON_GOAL \<or> ch = PLAYER_ON_GOAL)"

definition row_marked :: "(char \<Rightarrow> bool) \<Rightarrow> int \<Rightarrow> nat \<Rightarrow> char list \<Rightarrow> pos list" where
  "row_marked P r c row =
     concat (map (\<lambda>(j, ch). if P ch then [(r, int j)] else []) (enumerate c row))"

definition rows_marked :: "(char \<Rightarrow> bool) \<Rightarrow> nat \<Rightarrow> matrix \<Rightarrow> pos list" where
  "rows_marked P r m = concat (map (\<lambda>(i, row). row_marked P (int i) 0 row) (enumerate r m))"

definition marked :: "(char \<Rightarrow> bool) \<Rightarrow> matrix \<Rightarrow> pos list" where
  "marked P m = rows_marked P 0 m"

lemma row_marked_simps [simp]:
  "row_marked P r c [] = []"
  "row_marked P r c (ch # row) = (if P ch then [(r, int c)] else []) @ row_marked P r (Suc c) row"
  by (simp_all add: row_marked_def)

lemma rows_marked_simps [simp]:
  "rows_marked P r [] = []"
  "rows_marked P r (row # m) = row_marked P (int r) 0 row @ rows_marked P (Suc r) m"
  by (simp_all add: rows_marked_def)

lemma scan_row_marked:
  "scan_row r (int c) row acc =
     (if row_marked is_player r c row = [] then fst acc
      else Some (last (row_marked is_player r c row)),
      snd acc @ row_marked is_box r c row)"
proof (induction row arbitrary: c acc)
  case Nil
  then show ?case by simp
next
  case (Cons ch row)
  obtain pp bs where acc: "acc = (pp, bs)" by (cases acc)
  have ih: "\<And>acc. scan_row r (int c + 1) row acc =
     (if row_marked is_player r (Suc c) row = [] then fst acc
      else Some (last (row_marked is_player r (Suc c) row)),
      snd acc @ row_marked is_box r (Suc c) row)"
    using Cons.IH [of "Suc c"] by (simp add: add.commute)
  have p: "(ch = PLAYER \<or> ch = PLAYER_ON_GOAL) = is_player ch"
    and b: "(ch = BOX \<or> ch = BOX_ON_GOAL) = is_box ch"
    by (simp_all add: is_player_def is_box_def)
  have excl: "is_player ch \<Longrightarrow> \<not> is_box ch"
    by (auto simp: is_player_def is_box_def)
  show ?case
    unfolding acc scan_row.simps ih p b using excl by auto
qed

lemma scan_rows_marked:
  "scan_rows (int r) m acc =
     (if rows_marked is_player r m = [] then fst acc
      else Some (last (rows_marked is_player r m)),
      snd acc @ rows_marked is_box r m)"
proof (induction m arbitrary: r acc)
  case Nil
  then show ?case by simp
next
  case (Cons row m)
  have ih: "\<And>acc. scan_rows (int r + 1) m acc =
     (if rows_marked is_player (Suc r) m = [] then fst acc
      else Some (last (rows_marked is_player (Suc r) m)),
      snd acc @ rows_marked is_box (Suc r) m)"
    using Cons.IH [of "Suc r"] by (simp add: add.commute)
  show ?case
    unfolding scan_rows.simps ih
    using scan_row_marked [of "int r" 0 row acc]
    by auto
qed

lemma get_player_and_boxes_marked:
  "get_player_and_boxes_positions m =
     (if marked is_player m = [] then None else Some (last (marked is_player m)),
      marked is_box m)"
  using scan_rows_marked [of 0 m "(None, [])"]
  by (simp add: get_player_and_boxes_positions_def marked_def)

lemma goal_row_marked:
  "goal_row r (int c) row gs = gs @ row_marked is_goal r c row"
proof (induction row arbitrary: c gs)
  case Nil
  then show ?case by simp
next
  case (Cons ch row)
  have ih: "\<And>gs. goal_row r (int c + 1) row gs = gs @ row_marked is_goal r (Suc c) row"
    using Cons.IH [of "Suc c"] by (simp add: add.commute)
  have g: "(ch = GOAL \<or> ch = BOX_ON_GOAL \<or> ch = PLAYER_ON_GOAL) = is_goal ch"
    by (simp add: is_goal_def)
  show ?case
    unfolding goal_row.simps ih g by auto
qed

lemma goal_rows_marked:
  "goal_rows (int r) m gs = gs @ rows_marked is_goal r m"
proof (induction m arbitrary: r gs)
  case Nil
  then show ?case by simp
next
  case (Cons row m)
  have ih: "\<And>gs. goal_rows (int r + 1) m gs = gs @ rows_marked is_goal (Suc r) m"
    using Cons.IH [of "Suc r"] by (simp add: add.commute)
  show ?case
    unfolding goal_rows.simps ih
    using goal_row_marked [of "int r" 0 row gs]
    by auto
qed

lemma get_goal_positions_marked: "get_goal_positions m = marked is_goal m"
  using goal_rows_marked [of 0 m "[]"]
  by (simp add: get_goal_positions_def marked_def)

lemma set_row_marked:
  "set (row_marked P r c row) = {(r, int (c + j)) | j. j < length row \<and> P (row ! j)}"
proof (induction row arbitrary: c)
  case Nil
  then show ?case by simp
next
  case (Cons ch row)
  have "{(r, int (c + j)) | j. j < length (ch # row) \<and> P ((ch # row) ! j)}
      = (if P ch then {(r, int c)} else {}) \<union> {(r, int (Suc c + j)) | j. j < length row \<and> P (row ! j)}"
    (is "?L = ?R")
  proof (intro set_eqI iffI)
    fix x assume "x \<in> ?L"
    then obtain j where j: "x = (r, int (c + j))" "j < length (ch # row)" "P ((ch # row) ! j)" by auto
    then show "x \<in> ?R" by (cases j) auto
  next
    fix x assume "x \<in> ?R"
    then consider "P ch" "x = (r, int c)" | j where "x = (r, int (Suc c + j))" "j < length row" "P (row ! j)"
      by (auto split: if_splits)
    then show "x \<in> ?L"
    proof cases
      case 1
      then show ?thesis by (auto intro!: exI [of _ 0])
    next
      case 2
      then show ?thesis by (auto intro!: exI [of _ "Suc j"])
    qed
  qed
  then show ?case by (simp add: Cons.IH)
qed

lemma set_rows_marked:
  "set (rows_marked P r m) =
     {(int (r + i), int j) | i j. i < length m \<and> j < length (m ! i) \<and> P (m ! i ! j)}"
proof (induction m arbitrary: r)
  case Nil
  then show ?case by simp
next
  case (Cons row m)
  have "{(int (r + i), int j) | i j. i < length (row # m) \<and> j < length ((row # m) ! i) \<and> P ((row # m) ! i ! j)}
      = {(int r, int j) | j. j < length row \<and> P (row ! j)}
        \<union> {(int (Suc r + i), int j) | i j. i < length m \<and> j < length (m ! i) \<and> P (m ! i ! j)}"
    (is "?L = ?A \<union> ?B")
  proof (intro set_eqI iffI)
    fix x assume "x \<in> ?L"
    then obtain i j where j: "x = (int (r + i), int j)" "i < length (row # m)"
      "j < length ((row # m) ! i)" "P ((row # m) ! i ! j)" by auto
    then show "x \<in> ?A \<union> ?B" by (cases i) auto
  next
    fix x assume "x \<in> ?A \<union> ?B"
    then consider j where "x = (int r, int j)" "j < length row" "P (row ! j)"
      | i j where "x = (int (Suc r + i), int j)" "i < length m" "j < length (m ! i)" "P (m ! i ! j)"
      by auto
    then show "x \<in> ?L"
    proof cases
      case 1
      then show ?thesis by (auto intro!: exI [of _ 0])
    next
      case 2
      then show ?thesis by (auto intro!: exI [of _ "Suc i"])
    qed
  qed
  then show ?case by (simp add: Cons.IH set_row_marked)
qed

lemma set_marked:
  "set (marked P m) = {(int i, int j) | i j. i < length m \<and> j < length (m ! i) \<and> P (m ! i ! j)}"
  using set_rows_marked [of P 0 m] by (simp add: marked_def)


lemma marked_eval [simp]:
  "marked P [] = []"
  "marked P (row # m) = row_marked P 0 0 row @ rows_marked P (Suc 0) m"
  by (simp_all add: marked_def)

section \<open>Locating the player (C5)\<close>

text \<open>
  C5, as amended. \<^verbatim>\<open>get_player_and_boxes_positions\<close> reports no player exactly when
  the grid holds no player marker (\<open>@\<close> or \<open>+\<close>). When the grid holds one or more
  markers it returns the position of the last one in row-major order: with exactly one
  marker that is the marker's position, and more than one marker is not detected.
\<close>

theorem locate_last_player_marker:
  "fst (get_player_and_boxes_positions m) =
     (if marked is_player m = [] then None else Some (last (marked is_player m)))"
  by (simp add: get_player_and_boxes_marked)

text \<open>
  C5 as stated fails: on a grid with two player markers the scan does not fail, it returns
  the second marker.
\<close>

theorem locate_two_players_counterexample:
  "length (marked is_player [''@@'']) = 2 \<and>
   fst (get_player_and_boxes_positions [''@@'']) = Some (0, 1)"
  by (simp add: get_player_and_boxes_marked is_player_def)

section \<open>Degenerate grids are deadlocked (C10)\<close>

text \<open>
  C10. On every grid with no player marker, no box or no goal, \<^verbatim>\<open>has_deadlock\<close>
  returns true (and raises nothing, whatever the shape of the grid).
\<close>

theorem has_deadlock_degenerate:
  "marked is_player m = [] \<or> marked is_box m = [] \<or> marked is_goal m = [] \<Longrightarrow>
     has_deadlock m = Inr True"
  by (auto simp: has_deadlock_def get_player_and_boxes_marked get_goal_positions_marked Let_def)

text \<open>A grid without a player, with one box and one goal.\<close>

theorem has_deadlock_degenerate_witness:
  "marked is_player [''#$.#''] = [] \<and> has_deadlock [''#$.#''] = Inr True"
  using has_deadlock_degenerate [of "[''#$.#'']"] by (simp add: is_player_def)

section \<open>Level validity (C7)\<close>

text \<open>The number of boxes that stand on a goal.\<close>

definition boxes_on_goals :: "matrix \<Rightarrow> nat" where
  "boxes_on_goals m = length (filter (\<lambda>box_pos. box_pos \<in> set (marked is_goal m)) (marked is_box m))"

text \<open>
  C7. \<^verbatim>\<open>is_valid_level\<close> returns false when the player or the goals are missing,
  when the number of boxes differs from the number of goals, when all boxes are on goals,
  and when more than one box is on a goal. A level with exactly one box on a goal (and
  at least one more box, a player, and as many goals as boxes) is not rejected on that
  ground: its verdict is the negation of \<^verbatim>\<open>has_deadlock\<close>.
\<close>

theorem is_valid_level_rejects:
  "(marked is_player m = [] \<or> marked is_goal m = []
      \<or> length (marked is_box m) \<noteq> length (marked is_goal m)
      \<or> boxes_on_goals m = length (marked is_box m)
      \<or> 1 < boxes_on_goals m
     \<longrightarrow> is_valid_level m = Inr False)
   \<and> (marked is_player m \<noteq> [] \<and> marked is_goal m \<noteq> []
        \<and> length (marked is_box m) = length (marked is_goal m)
        \<and> boxes_on_goals m = 1 \<and> length (marked is_box m) \<noteq> 1
     \<longrightarrow> is_valid_level m = bind_err (has_deadlock m) (\<lambda>deadlock. Inr (\<not> deadlock)))"
proof (intro conjI impI)
  assume "marked is_player m = [] \<or> marked is_goal m = []
      \<or> length (marked is_box m) \<noteq> length (marked is_goal m)
      \<or> boxes_on_goals m = length (marked is_box m)
      \<or> 1 < boxes_on_goals m"
  then show "is_valid_level m = Inr False"
    by (auto simp: is_valid_level_def get_player_and_boxes_marked get_goal_positions_marked
        Let_def boxes_on_goals_def)
next
  assume "marked is_player m \<noteq> [] \<and> marked is_goal m \<noteq> []
        \<and> length (marked is_box m) = length (marked is_goal m)
        \<and> boxes_on_goals m = 1 \<and> length (marked is_box m) \<noteq> 1"
  then show "is_valid_level m = bind_err (has_deadlock m) (\<lambda>deadlock. Inr (\<not> deadlock))"
    by (auto simp: is_valid_level_def get_player_and_boxes_marked get_goal_positions_marked
        Let_def boxes_on_goals_def bind_err_def split: sum.splits)
qed

text \<open>
  Two test levels: two boxes with one goal, which is rejected, and two boxes with two
  goals, one box already on its goal, which is accepted.
\<close>

definition TWO_BOXES_ONE_GOAL :: matrix where
  "TWO_BOXES_ONE_GOAL =
     [''######'',
      ''#    #'',
      ''#@$ .#'',
      ''# $  #'',
      ''#    #'',
      ''######'']"

definition ONE_BOX_ON_GOAL :: matrix where
  "ONE_BOX_ON_GOAL =
     [''######'',
      ''#    #'',
      ''#@$ .#'',
      ''#   *#'',
      ''#    #'',
      ''######'']"

lemma has_deadlock_ONE_BOX_ON_GOAL: "has_deadlock ONE_BOX_ON_GOAL = Inr False"
  by code_simp

lemma marked_TWO_BOXES_ONE_GOAL:
  "marked is_box TWO_BOXES_ONE_GOAL = [(2, 2), (3, 2)]"
  "marked is_goal TWO_BOXES_ONE_GOAL = [(2, 4)]"
  by (simp_all add: TWO_BOXES_ONE_GOAL_def is_box_def is_goal_def)

lemma marked_ONE_BOX_ON_GOAL:
  "marked is_player ONE_BOX_ON_GOAL = [(2, 1)]"
  "marked is_box ONE_BOX_ON_GOAL = [(2, 2), (3, 4)]"
  "marked is_goal ONE_BOX_ON_GOAL = [(2, 4), (3, 4)]"
  by (simp_all add: ONE_BOX_ON_GOAL_def is_box_def is_goal_def is_player_def)

theorem is_valid_level_rejects_witness:
  "length (marked is_box TWO_BOXES_ONE_GOAL) = 2 \<and> length (marked is_goal TWO_BOXES_ONE_GOAL) = 1
   \<and> is_valid_level TWO_BOXES_ONE_GOAL = Inr False
   \<and> boxes_on_goals ONE_BOX_ON_GOAL = 1 \<and> is_valid_level ONE_BOX_ON_GOAL = Inr True"
  using is_valid_level_rejects [of TWO_BOXES_ONE_GOAL] is_valid_level_rejects [of ONE_BOX_ON_GOAL]
  by (simp add: marked_TWO_BOXES_ONE_GOAL marked_ONE_BOX_ON_GOAL boxes_on_goals_def
      has_deadlock_ONE_BOX_ON_GOAL bind_err_def)

section \<open>The move of the game loop\<close>

text \<open>
  \<^verbatim>\<open>movePlayer\<close> of \<^verbatim>\<open>sokoban.py\<close> (lines 112-191) works on the global
  \<^verbatim>\<open>Level\<close> object, of which the matrix and the undo history matter here
  (\<^verbatim>\<open>Level.py\<close>). Its positions are \<open>(x, y)\<close>, column first.
  \<^verbatim>\<open>getPlayerPosition\<close> returns the first player marker of a row-major scan;
  \<^verbatim>\<open>addToHistory\<close> appends a copy of the matrix and drops the oldest of more than 100
  entries; \<^verbatim>\<open>getLastMatrix\<close> pops the newest entry into the matrix.
\<close>

record level =
  matrix :: matrix
  history :: "matrix list"

fun find_in_row :: "int \<Rightarrow> int \<Rightarrow> char list \<Rightarrow> pos option" where
  "find_in_row y x [] = None"
| "find_in_row y x (ch # row) =
     (if ch = PLAYER \<or> ch = PLAYER_ON_GOAL then Some (x, y) else find_in_row y (x + 1) row)"

fun find_in_rows :: "int \<Rightarrow> matrix \<Rightarrow> pos option" where
  "find_in_rows y [] = None"
| "find_in_rows y (row # rows) =
     (case find_in_row y 0 row of Some p \<Rightarrow> Some p | None \<Rightarrow> find_in_rows (y + 1) rows)"

definition getPlayerPosition :: "level \<Rightarrow> pos option" where
  "getPlayerPosition lv = find_in_rows 0 (matrix lv)"

definition addToHistory :: "level \<Rightarrow> matrix \<Rightarrow> level" where
  "addToHistory lv m =
     (let h = history lv @ [m]
      in lv\<lparr>history := (if length h > 100 then tl h else h)\<rparr>)"

definition getLastMatrix :: "level \<Rightarrow> level" where
  "getLastMatrix lv =
     (if history lv \<noteq> [] then lv\<lparr>matrix := last (history lv), history := butlast (history lv)\<rparr>
      else lv)"

definition direction_delta :: "string \<Rightarrow> (int \<times> int) option" where
  "direction_delta direction =
     (if direction = ''L'' then Some (-1, 0)
      else if direction = ''R'' then Some (1, 0)
      else if direction = ''U'' then Some (0, -1)
      else if direction = ''D'' then Some (0, 1)
      else None)"

text \<open>
  \<^verbatim>\<open>movePlayer\<close> up to the assignment of the new matrix; the result is the level
  and the returned flag. Drawing, and the loading of the next level once the new matrix is
  solved, belong to the game loop and are not modelled.
\<close>

definition movePlayer :: "level \<Rightarrow> string \<Rightarrow> error + level \<times> bool" where
  "movePlayer myLevel direction =
     (let matrix = matrix myLevel; lv = addToHistory myLevel matrix in
      case getPlayerPosition lv of
        None \<Rightarrow> Inr (lv, False)
      | Some (x, y) \<Rightarrow>
         (case direction_delta direction of
            None \<Rightarrow> Inr (lv, False)
          | Some (dx, dy) \<Rightarrow>
              let next_x = x + dx; next_y = y + dy;
                  next_next_x = x + 2 * dx; next_next_y = y + 2 * dy
              in if \<not> (0 \<le> next_y \<and> next_y < int (length matrix) \<and> 0 \<le> next_x
                        \<and> next_x < int (length (matrix ! nat next_y)))
                 then Inr (getLastMatrix lv, False)
                 else bind_err (cell matrix y x) (\<lambda>current_player_char.
                      bind_err (cell matrix next_y next_x) (\<lambda>destination_char.
                      if destination_char = FLOOR \<or> destination_char = GOAL then
                        bind_err (set_cell matrix next_y next_x
                                    (if destination_char = GOAL then PLAYER_ON_GOAL else PLAYER))
                          (\<lambda>m1.
                        bind_err (set_cell m1 y x
                                    (if current_player_char = PLAYER_ON_GOAL then GOAL else FLOOR))
                          (\<lambda>new_matrix.
                        Inr (lv\<lparr>matrix := new_matrix\<rparr>, True)))
                      else if destination_char = BOX \<or> destination_char = BOX_ON_GOAL then
                        if \<not> (0 \<le> next_next_y \<and> next_next_y < int (length matrix)
                               \<and> 0 \<le> next_next_x
                               \<and> next_next_x < int (length (matrix ! nat next_next_y)))
                        then Inr (getLastMatrix lv, False)
                        else bind_err (cell matrix next_next_y next_next_x) (\<lambda>char_beyond_box.
                          if char_beyond_box = FLOOR \<or> char_beyond_box = GOAL then
                            bind_err (set_cell matrix next_next_y next_next_x
                                        (if char_beyond_box = GOAL then BOX_ON_GOAL else BOX))
                              (\<lambda>m1.
                            bind_err (set_cell m1 next_y next_x
                                        (if destination_char = BOX_ON_GOAL then PLAYER_ON_GOAL
                                         else PLAYER))
                              (\<lambda>m2.
                            bind_err (set_cell m2 y x
                                        (if current_player_char = PLAYER_ON_GOAL then GOAL
                                         else FLOOR))
                              (\<lambda>new_matrix.
                            Inr (lv\<lparr>matrix := new_matrix\<rparr>, True))))
                          else Inr (getLastMatrix lv, False))
                      else Inr (getLastMatrix lv, False)))))"

section \<open>Rejected moves change nothing (C6)\<close>

text \<open>
  \<open>inside m r c\<close>: the matrix has a cell at row \<open>r\<close>, column \<open>c\<close>; \<open>at m r c\<close> is
  that cell. \<open>blocked_move m p d\<close>: for a player at \<open>p\<close> moving by \<open>d\<close>, the
  destination is outside the grid or a wall, or it holds a box and the cell beyond the box
  is outside the grid or neither floor nor goal.
\<close>

definition inside :: "matrix \<Rightarrow> int \<Rightarrow> int \<Rightarrow> bool" where
  "inside m r c = (0 \<le> r \<and> r < int (length m) \<and> 0 \<le> c \<and> c < int (length (m ! nat r)))"

definition at :: "matrix \<Rightarrow> int \<Rightarrow> int \<Rightarrow> char" where
  "at m r c = m ! nat r ! nat c"

definition rectangular :: "matrix \<Rightarrow> bool" where
  "rectangular m = (\<forall>row \<in> set m. length row = length (hd m))"

definition blocked_move :: "matrix \<Rightarrow> pos \<Rightarrow> int \<times> int \<Rightarrow> bool" where
  "blocked_move m p d =
     (case (p, d) of ((r, c), (dr, dc)) \<Rightarrow>
        \<not> inside m (r + dr) (c + dc)
        \<or> at m (r + dr) (c + dc) = WALL
        \<or> (is_box (at m (r + dr) (c + dc))
            \<and> (\<not> inside m (r + 2 * dr) (c + 2 * dc)
                \<or> \<not> (at m (r + 2 * dr) (c + 2 * dc) = FLOOR \<or> at m (r + 2 * dr) (c + 2 * dc) = GOAL))))"

lemma cell_inside: "inside m r c \<Longrightarrow> cell m r c = Inr (at m r c)"
  by (auto simp: inside_def cell_def py_get_def py_index_def bind_err_def at_def)

lemma set_cell_inside:
  "inside m r c \<Longrightarrow> set_cell m r c v = Inr (m[nat r := (m ! nat r)[nat c := v]])"
  by (auto simp: inside_def set_cell_def py_get_def py_set_def py_index_def bind_err_def)

lemma inside_update [simp]:
  "inside (m[i := (m ! i)[j := v]]) r c = inside m r c"
  by (cases "i < length m") (auto simp: inside_def nth_list_update)

lemma rectangular_in_bounds:
  "rectangular m \<Longrightarrow> in_bounds (int (length m)) (int (length (hd m))) r c = inside m r c"
  by (auto simp: rectangular_def in_bounds_def inside_def)

lemma find_in_row_inside:
  "find_in_row y (int k) row = Some (x, y') \<Longrightarrow>
     y' = y \<and> int k \<le> x \<and> x < int (k + length row) \<and> is_player (row ! (nat x - k))"
proof (induction row arbitrary: k)
  case Nil
  then show ?case by simp
next
  case (Cons ch row)
  show ?case
  proof (cases "ch = PLAYER \<or> ch = PLAYER_ON_GOAL")
    case True
    with Cons.prems show ?thesis by (auto simp: is_player_def)
  next
    case False
    with Cons.prems have "find_in_row y (int (Suc k)) row = Some (x, y')"
      by (simp add: add.commute)
    from Cons.IH [OF this] have ih: "y' = y" "int (Suc k) \<le> x" "x < int (Suc k + length row)"
      "is_player (row ! (nat x - Suc k))" by auto
    from ih(2) have e: "nat x - k = Suc (nat x - Suc k)" by linarith
    from ih show ?thesis by (simp add: e)
  qed
qed

lemma find_in_rows_inside:
  "find_in_rows (int k) m = Some (x, y) \<Longrightarrow>
     int k \<le> y \<and> y < int (k + length m) \<and> 0 \<le> x \<and> x < int (length (m ! (nat y - k)))
     \<and> is_player (m ! (nat y - k) ! nat x)"
proof (induction m arbitrary: k)
  case Nil
  then show ?case by simp
next
  case (Cons row m)
  show ?case
  proof (cases "find_in_row (int k) 0 row")
    case None
    with Cons.prems have "find_in_rows (int (Suc k)) m = Some (x, y)"
      by (simp add: add.commute)
    from Cons.IH [OF this] have ih: "int (Suc k) \<le> y" "y < int (Suc k + length m)" "0 \<le> x"
      "x < int (length (m ! (nat y - Suc k)))" "is_player (m ! (nat y - Suc k) ! nat x)" by auto
    from ih(1) have e: "nat y - k = Suc (nat y - Suc k)" by linarith
    from ih show ?thesis by (simp add: e)
  next
    case (Some p)
    with Cons.prems have "find_in_row (int k) (int 0) row = Some (x, y)" by simp
    from find_in_row_inside [OF this] show ?thesis by auto
  qed
qed

lemma getPlayerPosition_inside:
  "getPlayerPosition lv = Some (x, y) \<Longrightarrow> inside (matrix lv) y x \<and> is_player (at (matrix lv) y x)"
  using find_in_rows_inside [of 0 "matrix lv" x y]
  by (auto simp: getPlayerPosition_def inside_def at_def)

lemma getLastMatrix_addToHistory:
  "matrix (getLastMatrix (addToHistory lv (matrix lv))) = matrix lv"
  by (cases "history lv") (auto simp: getLastMatrix_def addToHistory_def Let_def last_tl)

lemma getPlayerPosition_addToHistory [simp]:
  "getPlayerPosition (addToHistory lv m) = getPlayerPosition lv"
  by (simp add: getPlayerPosition_def addToHistory_def Let_def)

lemma matrix_addToHistory [simp]: "matrix (addToHistory lv m) = matrix lv"
  by (simp add: addToHistory_def Let_def)


lemma movePlayer_no_error: "movePlayer lv direction \<noteq> Inl e"
proof (cases "getPlayerPosition lv")
  case None
  then show ?thesis by (simp add: movePlayer_def Let_def)
next
  case (Some p)
  obtain x y where p: "p = (x, y)" by (cases p)
  from getPlayerPosition_inside [OF Some [unfolded p]] have i: "inside (matrix lv) y x" by simp
  show ?thesis
  proof (cases "direction_delta direction")
    case None
    with Some p show ?thesis by (simp add: movePlayer_def Let_def)
  next
    case d: (Some d)
    obtain dx dy where dd: "d = (dx, dy)" by (cases d)
    show ?thesis
    proof (cases "inside (matrix lv) (y + dy) (x + dx)")
      case False
      with Some p d dd show ?thesis by (simp add: movePlayer_def Let_def inside_def)
    next
      case i1: True
      show ?thesis
      proof (cases "inside (matrix lv) (y + 2 * dy) (x + 2 * dx)")
        case True
        with Some p d dd i i1 show ?thesis
          by (simp add: movePlayer_def Let_def cell_inside set_cell_inside bind_err_def)
      next
        case False
        with Some p d dd i i1 show ?thesis
          by (simp add: movePlayer_def Let_def cell_inside set_cell_inside bind_err_def)
            (auto simp: inside_def)
      qed
    qed
  qed
qed

lemma movePlayer_blocked:
  assumes "getPlayerPosition lv = Some (x, y)" "direction_delta direction = Some (dx, dy)"
    and "blocked_move (matrix lv) (y, x) (dy, dx)"
  shows "\<exists>lv'. movePlayer lv direction = Inr (lv', False) \<and> matrix lv' = matrix lv"
proof -
  from getPlayerPosition_inside [OF assms(1)] have i: "inside (matrix lv) y x"
    and pl: "is_player (at (matrix lv) y x)" by simp_all
  note un = getLastMatrix_addToHistory [of lv]
  show ?thesis
  proof (cases "inside (matrix lv) (y + dy) (x + dx)")
    case False
    with assms un show ?thesis by (simp add: movePlayer_def Let_def inside_def)
  next
    case i1: True
    show ?thesis
    proof (cases "inside (matrix lv) (y + 2 * dy) (x + 2 * dx)")
      case True
      with assms i i1 un show ?thesis
        by (simp add: movePlayer_def Let_def cell_inside set_cell_inside bind_err_def
              blocked_move_def is_box_def)
          (auto simp add: inside_def)
    next
      case False
      with assms i i1 un show ?thesis
        by (simp add: movePlayer_def Let_def cell_inside set_cell_inside bind_err_def
              blocked_move_def is_box_def)
          (auto simp add: inside_def)
    qed
  qed
qed

lemma try_move_blocked:
  assumes "rectangular m" "blocked_move m p d"
  shows "try_move m p bs d = Inr None"
proof -
  obtain r c dr dc where p: "p = (r, c)" and d: "d = (dr, dc)" by (cases p, cases d) auto
  note ib = rectangular_in_bounds [OF assms(1)]
  have e: "r + dr + dr = r + 2 * dr" "c + dc + dc = c + 2 * dc" by simp_all
  show ?thesis
  proof (cases "inside m (r + dr) (c + dc)")
    case False
    then show ?thesis by (simp add: try_move_def p d Let_def ib)
  next
    case i1: True
    show ?thesis
    proof (cases "inside m (r + 2 * dr) (c + 2 * dc)")
      case True
      with assms(2) i1 show ?thesis
        by (auto simp: try_move_def p d Let_def ib e cell_inside bind_err_def blocked_move_def
            is_box_def)
    next
      case False
      with assms(2) i1 show ?thesis
        by (auto simp: try_move_def p d Let_def ib e cell_inside bind_err_def blocked_move_def
            is_box_def)
    qed
  qed
qed

lemma try_move_no_IndexError:
  assumes "rectangular m" "inside m r c"
  shows "try_move m (r, c) bs d \<noteq> Inl IndexError"
proof -
  obtain dr dc where d: "d = (dr, dc)" by (cases d) auto
  note ib = rectangular_in_bounds [OF assms(1)]
  have e: "r + dr + dr = r + 2 * dr" "c + dc + dc = c + 2 * dc" by simp_all
  show ?thesis
  proof (cases "inside m (r + dr) (c + dc)")
    case False
    then show ?thesis by (simp add: try_move_def d Let_def ib)
  next
    case i1: True
    show ?thesis
    proof (cases "inside m (r + 2 * dr) (c + 2 * dc)")
      case True
      with assms(2) i1 show ?thesis
        by (simp add: try_move_def d Let_def ib e cell_inside set_cell_inside bind_err_def)
    next
      case False
      with assms(2) i1 show ?thesis
        by (simp add: try_move_def d Let_def ib e cell_inside set_cell_inside bind_err_def)
    qed
  qed
qed


text \<open>
  A rejected move returns the level after \<^verbatim>\<open>addToHistory\<close> and
  \<^verbatim>\<open>getLastMatrix\<close>. The two undo each other while the history is below its cap of
  100 entries; at the cap \<^verbatim>\<open>addToHistory\<close> has dropped the oldest entry first.
\<close>

lemma movePlayer_blocked_result:
  assumes "getPlayerPosition lv = Some (x, y)" "direction_delta direction = Some (dx, dy)"
    and "blocked_move (matrix lv) (y, x) (dy, dx)"
  shows "movePlayer lv direction = Inr (getLastMatrix (addToHistory lv (matrix lv)), False)"
proof -
  from getPlayerPosition_inside [OF assms(1)] have i: "inside (matrix lv) y x"
    and pl: "is_player (at (matrix lv) y x)" by simp_all
  show ?thesis
  proof (cases "inside (matrix lv) (y + dy) (x + dx)")
    case False
    with assms show ?thesis by (simp add: movePlayer_def Let_def inside_def)
  next
    case i1: True
    show ?thesis
    proof (cases "inside (matrix lv) (y + 2 * dy) (x + 2 * dx)")
      case True
      with assms i i1 show ?thesis
        by (simp add: movePlayer_def Let_def cell_inside set_cell_inside bind_err_def
              blocked_move_def is_box_def)
          (auto simp add: inside_def)
    next
      case False
      with assms i i1 show ?thesis
        by (simp add: movePlayer_def Let_def cell_inside set_cell_inside bind_err_def
              blocked_move_def is_box_def)
          (auto simp add: inside_def)
    qed
  qed
qed

lemma restore_below_cap:
  "length (history lv) < 100 \<Longrightarrow> getLastMatrix (addToHistory lv (matrix lv)) = lv"
  by (simp add: getLastMatrix_def addToHistory_def Let_def)

lemma restore_at_cap:
  "length (history lv) = 100 \<Longrightarrow>
     getLastMatrix (addToHistory lv (matrix lv)) = lv\<lparr>history := tl (history lv)\<rparr>"
  by (cases "history lv") (auto simp: getLastMatrix_def addToHistory_def Let_def butlast_append)

text \<open>
  C6, as amended. A move whose destination is a wall or out of bounds, or a box whose cell
  beyond is not floor or goal, is rejected: \<^verbatim>\<open>movePlayer\<close> returns false and leaves
  the matrix as it was, and the whole level, matrix and undo history, as it was when the
  history holds fewer than 100 entries; the solver's move step produces no successor. The
  bounds are checked before the grid is indexed, also for the cell two steps away:
  \<^verbatim>\<open>movePlayer\<close> raises on no grid at all, and the solver's step raises no
  \<^verbatim>\<open>IndexError\<close> on a rectangular grid with the player inside it.
\<close>

theorem move_rejection_restores:
  "movePlayer lv direction \<noteq> Inl e
   \<and> (getPlayerPosition lv = Some (x, y) \<and> direction_delta direction = Some (dx, dy)
        \<and> blocked_move (matrix lv) (y, x) (dy, dx)
      \<longrightarrow> (\<exists>lv'. movePlayer lv direction = Inr (lv', False) \<and> matrix lv' = matrix lv
                \<and> (length (history lv) < 100 \<longrightarrow> lv' = lv)))
   \<and> (rectangular m \<and> blocked_move m p d \<longrightarrow> try_move m p bs d = Inr None)
   \<and> (rectangular m \<and> inside m r c \<longrightarrow> try_move m (r, c) bs d \<noteq> Inl IndexError)"
  using movePlayer_no_error [of lv direction e] movePlayer_blocked_result [of lv x y direction dx dy]
    try_move_blocked [of m p d bs] try_move_no_IndexError [of m r c bs d]
    getLastMatrix_addToHistory [of lv] restore_below_cap [of lv]
  by auto

text \<open>
  The 5 by 5 fixture: the player at \<open>(1, 1)\<close> walks up into the wall ring, with an
  empty undo history.
\<close>

definition FIXTURE :: matrix where
  "FIXTURE =
     [''#####'',
      ''#@  #'',
      ''# $.#'',
      ''#   #'',
      ''#####'']"

lemma FIXTURE_facts:
  "getPlayerPosition \<lparr>matrix = FIXTURE, history = []\<rparr> = Some (1, 1)"
  "rectangular FIXTURE" "blocked_move FIXTURE (1, 1) (-1, 0)" "inside FIXTURE 1 1"
  by (simp_all add: getPlayerPosition_def FIXTURE_def rectangular_def blocked_move_def
      inside_def at_def)

theorem move_rejection_restores_witness:
  "blocked_move FIXTURE (1, 1) (-1, 0)
   \<and> movePlayer \<lparr>matrix = FIXTURE, history = []\<rparr> ''U''
       = Inr (\<lparr>matrix = FIXTURE, history = []\<rparr>, False)
   \<and> try_move FIXTURE (1, 1) [(2, 2)] (-1, 0) = Inr None
   \<and> try_move FIXTURE (1, 1) [(2, 2)] (-1, 0) \<noteq> Inl IndexError"
  using move_rejection_restores [of "\<lparr>matrix = FIXTURE, history = []\<rparr>" "''U''" _ 1 1 0 "-1"
      FIXTURE "(1, 1)" "(-1, 0)" "[(2, 2)]" 1 1]
  by (auto simp add: FIXTURE_facts direction_delta_def)

lemma FIXTURE_full_history:
  "getPlayerPosition \<lparr>matrix = FIXTURE, history = replicate 100 FIXTURE\<rparr> = Some (1, 1)"
  by (simp add: getPlayerPosition_def FIXTURE_def)

text \<open>
  C6 as stated fails when the state is the level with its undo history: with 100 entries
  in the history, a rejected move returns a level whose history has lost its oldest
  entry.
\<close>

theorem move_rejection_full_history_counterexample:
  "blocked_move FIXTURE (1, 1) (-1, 0)
   \<and> movePlayer \<lparr>matrix = FIXTURE, history = replicate 100 FIXTURE\<rparr> ''U''
       = Inr (\<lparr>matrix = FIXTURE, history = replicate 99 FIXTURE\<rparr>, False)
   \<and> \<lparr>matrix = FIXTURE, history = replicate 99 FIXTURE\<rparr>
       \<noteq> \<lparr>matrix = FIXTURE, history = replicate 100 FIXTURE\<rparr>"
proof -
  have t: "tl (replicate 100 FIXTURE) = replicate 99 FIXTURE"
    by (simp add: tl_replicate)
  have "length (replicate 99 FIXTURE) \<noteq> length (replicate 100 FIXTURE)" by simp
  then have n: "replicate 99 FIXTURE \<noteq> replicate 100 FIXTURE" by metis
  show ?thesis
    using movePlayer_blocked_result [of "\<lparr>matrix = FIXTURE, history = replicate 100 FIXTURE\<rparr>"
        1 1 "''U''" 0 "-1"]
      restore_at_cap [of "\<lparr>matrix = FIXTURE, history = replicate 100 FIXTURE\<rparr>"]
    by (simp add: FIXTURE_full_history FIXTURE_facts direction_delta_def t n)
qed

section \<open>What a move does to a grid\<close>

text \<open>
  \<open>upd m r c v\<close> is the matrix after \<^verbatim>\<open>m[r][c] = v\<close> on a cell of the grid. The
  lemmas describe the result of the solver's move step cell by cell, and what it does to
  the goals, the boxes and the walls.
\<close>

definition upd :: "matrix \<Rightarrow> int \<Rightarrow> int \<Rightarrow> char \<Rightarrow> matrix" where
  "upd m r c v = m[nat r := (m ! nat r)[nat c := v]]"

lemma set_cell_upd: "inside m r c \<Longrightarrow> set_cell m r c v = Inr (upd m r c v)"
  by (simp add: set_cell_inside upd_def)

lemma inside_upd [simp]: "inside (upd m r c v) r' c' = inside m r' c'"
  by (simp add: upd_def)

lemma length_upd [simp]: "length (upd m r c v) = length m"
  by (simp add: upd_def)

lemma length_hd_upd [simp]: "length (hd (upd m r c v)) = length (hd m)"
  by (cases m; cases "nat r") (auto simp: upd_def)

lemma at_upd:
  "inside m r c \<Longrightarrow> inside m r' c' \<Longrightarrow>
     at (upd m r c v) r' c' = (if r' = r \<and> c' = c then v else at m r' c')"
  by (auto simp: inside_def at_def upd_def nth_list_update)

lemma cell_Inr_nonneg:
  "cell m r c = Inr ch \<Longrightarrow> 0 \<le> r \<Longrightarrow> 0 \<le> c \<Longrightarrow> inside m r c \<and> ch = at m r c"
  by (auto simp: cell_def py_get_def py_index_def bind_err_def inside_def at_def
      split: if_splits sum.splits option.splits)

lemma marked_mem:
  "(r, c) \<in> set (marked P m) \<longleftrightarrow> inside m r c \<and> P (at m r c)"
proof
  assume "(r, c) \<in> set (marked P m)"
  then show "inside m r c \<and> P (at m r c)"
    by (auto simp: set_marked inside_def at_def)
next
  assume a: "inside m r c \<and> P (at m r c)"
  then have "(r, c) = (int (nat r), int (nat c))" "nat r < length m"
    "nat c < length (m ! nat r)" "P (m ! nat r ! nat c)"
    by (auto simp: inside_def at_def)
  then show "(r, c) \<in> set (marked P m)"
    unfolding set_marked by blast
qed

lemma sorted_wrt_row_marked:
  "sorted_wrt (\<lambda>p q. fst p = fst q \<and> snd p < snd q) (row_marked P r c row)"
proof (induction row arbitrary: c)
  case Nil
  then show ?case by simp
next
  case (Cons ch row)
  have "\<forall>q \<in> set (row_marked P r (Suc c) row). fst q = r \<and> int c < snd q"
    by (auto simp: set_row_marked)
  with Cons.IH [of "Suc c"] show ?case by (auto simp: sorted_wrt_append)
qed

lemma sorted_wrt_rows_marked:
  "sorted_wrt (\<lambda>p q. fst p < fst q \<or> fst p = fst q \<and> snd p < snd q) (rows_marked P r m)"
proof (induction m arbitrary: r)
  case Nil
  then show ?case by simp
next
  case (Cons row m)
  have a: "\<forall>q \<in> set (rows_marked P (Suc r) m). int r < fst q"
    by (auto simp: set_rows_marked)
  have b: "\<forall>p \<in> set (row_marked P (int r) 0 row). fst p = int r"
    by (auto simp: set_row_marked)
  have c: "sorted_wrt (\<lambda>p q. fst p < fst q \<or> fst p = fst q \<and> snd p < snd q)
      (row_marked P (int r) 0 row)"
    by (rule sorted_wrt_mono_rel [OF _ sorted_wrt_row_marked]) auto
  from a b c Cons.IH [of "Suc r"] show ?case by (auto simp: sorted_wrt_append)
qed

lemma strict_sorted_marked: "sorted_wrt (<) (marked P m)"
  unfolding marked_def
  by (rule sorted_wrt_mono_rel [OF _ sorted_wrt_rows_marked]) (auto simp: less_prod_def)

lemma distinct_marked: "distinct (marked P m)"
  using strict_sorted_marked [of P m] strict_sorted_iff by blast

lemma sorted_marked: "sorted (marked P m)"
  using strict_sorted_marked [of P m] strict_sorted_iff by blast

lemma marked_eqI: "set (marked P m) = set (marked Q m') \<Longrightarrow> marked P m = marked Q m'"
  by (metis distinct_marked sorted_marked sorted_distinct_set_unique)


definition player_mark :: "char \<Rightarrow> char" where
  "player_mark ch = (if ch = GOAL \<or> ch = BOX_ON_GOAL then PLAYER_ON_GOAL else PLAYER)"

definition box_mark :: "char \<Rightarrow> char" where
  "box_mark ch = (if ch = GOAL then BOX_ON_GOAL else BOX)"

definition vacated :: "char \<Rightarrow> char" where
  "vacated ch = (if ch = PLAYER_ON_GOAL then GOAL else FLOOR)"

lemma try_move_cases:
  assumes tm: "try_move m (r, c) bs (dr, dc) = Inr (Some (m', p', bs'))"
    and ins: "inside m r c" and nz: "(dr, dc) \<noteq> (0, 0)"
  obtains
    (step) "inside m (r + dr) (c + dc)"
      "at m (r + dr) (c + dc) = FLOOR \<or> at m (r + dr) (c + dc) = GOAL"
      "m' = upd (upd m (r + dr) (c + dc) (player_mark (at m (r + dr) (c + dc)))) r c
              (vacated (at m r c))"
      "p' = (r + dr, c + dc)" "bs' = bs"
  | (push) "inside m (r + dr) (c + dc)" "is_box (at m (r + dr) (c + dc))"
      "inside m (r + 2 * dr) (c + 2 * dc)"
      "at m (r + 2 * dr) (c + 2 * dc) = FLOOR \<or> at m (r + 2 * dr) (c + 2 * dc) = GOAL"
      "m' = upd (upd (upd m (r + 2 * dr) (c + 2 * dc) (box_mark (at m (r + 2 * dr) (c + 2 * dc))))
                   (r + dr) (c + dc) (player_mark (at m (r + dr) (c + dc)))) r c
              (vacated (at m r c))"
      "p' = (r + dr, c + dc)" "(r + dr, c + dc) \<in> set bs"
      "bs' = remove1 (r + dr, c + dc) bs @ [(r + 2 * dr, c + 2 * dc)]"
proof -
  let ?rows = "int (length m)" and ?cols = "int (length (hd m))"
  have e: "r + dr + dr = r + 2 * dr" "c + dc + dc = c + 2 * dc" by simp_all
  from tm have ib: "in_bounds ?rows ?cols (r + dr) (c + dc)"
    by (auto simp: try_move_def Let_def split: if_splits)
  with tm obtain ch1 where c1: "cell m (r + dr) (c + dc) = Inr ch1"
    by (auto simp: try_move_def Let_def bind_err_def split: sum.splits)
  from cell_Inr_nonneg [OF c1] ib have i1: "inside m (r + dr) (c + dc)"
    and ch1: "ch1 = at m (r + dr) (c + dc)" by (auto simp: in_bounds_def)
  have ne: "\<not> (r + dr = r \<and> c + dc = c)" using nz by auto
  show ?thesis
  proof (cases "ch1 = FLOOR \<or> ch1 = GOAL")
    case True
    have a1: "at (upd m (r + dr) (c + dc) v) r c = at m r c" for v
      using at_upd [OF i1 ins] ne by auto
    from True tm ib c1 i1 ins have "m' = upd (upd m (r + dr) (c + dc) (player_mark ch1)) r c
              (vacated (at m r c))" "p' = (r + dr, c + dc)" "bs' = bs"
      by (auto simp: try_move_def Let_def bind_err_def set_cell_upd cell_inside a1
          player_mark_def vacated_def)
    with True i1 ch1 show ?thesis by (intro step) auto
  next
    case False
    with tm ib c1 have bx: "ch1 = BOX \<or> ch1 = BOX_ON_GOAL"
      by (auto simp: try_move_def Let_def bind_err_def split: if_splits)
    with False tm ib c1 have ib2: "in_bounds ?rows ?cols (r + 2 * dr) (c + 2 * dc)"
      by (auto simp: try_move_def Let_def bind_err_def e split: if_splits)
    with False bx tm ib c1 obtain ch2 where c2: "cell m (r + 2 * dr) (c + 2 * dc) = Inr ch2"
      by (auto simp: try_move_def Let_def bind_err_def e split: sum.splits if_splits)
    from cell_Inr_nonneg [OF c2] ib2 have i2: "inside m (r + 2 * dr) (c + 2 * dc)"
      and ch2: "ch2 = at m (r + 2 * dr) (c + 2 * dc)" by (auto simp: in_bounds_def)
    from False bx tm ib ib2 c1 c2 have f2: "ch2 = FLOOR \<or> ch2 = GOAL"
      by (auto simp: try_move_def Let_def bind_err_def e split: if_splits)
    from False bx tm ib ib2 c1 c2 f2 have mem: "(r + dr, c + dc) \<in> set bs"
      by (auto simp: try_move_def Let_def bind_err_def e split: if_splits)
    have ne2: "\<not> (r + 2 * dr = r \<and> c + 2 * dc = c)" using nz by auto
    have a1: "at (upd (upd m (r + 2 * dr) (c + 2 * dc) v) (r + dr) (c + dc) w) r c = at m r c"
      for v w
      using ne ne2 ins i1 i2 by (auto simp: at_upd)
    from False bx tm ib ib2 c1 c2 f2 mem i1 i2 ins
    have "m' = upd (upd (upd m (r + 2 * dr) (c + 2 * dc) (box_mark ch2))
                   (r + dr) (c + dc) (player_mark ch1)) r c (vacated (at m r c))"
      "p' = (r + dr, c + dc)"
      "bs' = remove1 (r + dr, c + dc) bs @ [(r + 2 * dr, c + 2 * dc)]"
      by (auto simp: try_move_def Let_def bind_err_def e set_cell_upd cell_inside a1
          player_mark_def vacated_def box_mark_def)
    with bx i1 i2 ch1 ch2 f2 mem show ?thesis by (intro push) (auto simp: is_box_def)
  qed
qed


lemma mark_simps [simp]:
  "is_goal (player_mark ch) = (ch = GOAL \<or> ch = BOX_ON_GOAL)"
  "is_goal (box_mark ch) = (ch = GOAL)"
  "is_goal (vacated ch) = (ch = PLAYER_ON_GOAL)"
  "is_box (box_mark ch)" "\<not> is_box (player_mark ch)" "\<not> is_box (vacated ch)"
  "is_player (player_mark ch)" "\<not> is_player (box_mark ch)" "\<not> is_player (vacated ch)"
  "player_mark ch \<noteq> WALL" "box_mark ch \<noteq> WALL" "vacated ch \<noteq> WALL"
  by (auto simp: is_goal_def is_box_def is_player_def player_mark_def box_mark_def vacated_def)

lemma try_move_nonzero:
  assumes "try_move m (r, c) bs (dr, dc) = Inr (Some x)" "inside m r c" "is_player (at m r c)"
  shows "(dr, dc) \<noteq> (0, 0)"
proof
  assume "(dr, dc) = (0, 0)"
  with assms show False
    by (auto simp: try_move_def Let_def bind_err_def cell_inside is_player_def split: if_splits)
qed

text \<open>What a move does to the grid, cell by cell.\<close>

lemma try_move_at:
  assumes tm: "try_move m (r, c) bs (dr, dc) = Inr (Some (m', p', bs'))"
    and ins: "inside m r c" and pl: "is_player (at m r c)"
  shows "inside m' = inside m"
    and "p' = (r + dr, c + dc)" and "inside m (r + dr) (c + dc)"
    and "at m (r + dr) (c + dc) = FLOOR \<or> at m (r + dr) (c + dc) = GOAL
         \<or> is_box (at m (r + dr) (c + dc))"
    and "is_box (at m (r + dr) (c + dc)) \<Longrightarrow> inside m (r + 2 * dr) (c + 2 * dc)
           \<and> (at m (r + 2 * dr) (c + 2 * dc) = FLOOR \<or> at m (r + 2 * dr) (c + 2 * dc) = GOAL)
           \<and> (r + dr, c + dc) \<in> set bs
           \<and> bs' = remove1 (r + dr, c + dc) bs @ [(r + 2 * dr, c + 2 * dc)]"
    and "\<not> is_box (at m (r + dr) (c + dc)) \<Longrightarrow> bs' = bs"
    and "\<And>qr qc. inside m qr qc \<Longrightarrow> at m' qr qc =
           (if (qr, qc) = (r, c) then vacated (at m r c)
            else if (qr, qc) = (r + dr, c + dc) then player_mark (at m (r + dr) (c + dc))
            else if (qr, qc) = (r + 2 * dr, c + 2 * dc) \<and> is_box (at m (r + dr) (c + dc))
            then box_mark (at m (r + 2 * dr) (c + 2 * dc))
            else at m qr qc)"
proof -
  note nz = try_move_nonzero [OF tm ins pl]
  from tm ins nz have
    "inside m' = inside m \<and> p' = (r + dr, c + dc) \<and> inside m (r + dr) (c + dc)
     \<and> (at m (r + dr) (c + dc) = FLOOR \<or> at m (r + dr) (c + dc) = GOAL
         \<or> is_box (at m (r + dr) (c + dc)))
     \<and> (is_box (at m (r + dr) (c + dc)) \<longrightarrow> inside m (r + 2 * dr) (c + 2 * dc)
           \<and> (at m (r + 2 * dr) (c + 2 * dc) = FLOOR \<or> at m (r + 2 * dr) (c + 2 * dc) = GOAL)
           \<and> (r + dr, c + dc) \<in> set bs
           \<and> bs' = remove1 (r + dr, c + dc) bs @ [(r + 2 * dr, c + 2 * dc)])
     \<and> (\<not> is_box (at m (r + dr) (c + dc)) \<longrightarrow> bs' = bs)
     \<and> (\<forall>qr qc. inside m qr qc \<longrightarrow> at m' qr qc =
           (if (qr, qc) = (r, c) then vacated (at m r c)
            else if (qr, qc) = (r + dr, c + dc) then player_mark (at m (r + dr) (c + dc))
            else if (qr, qc) = (r + 2 * dr, c + 2 * dc) \<and> is_box (at m (r + dr) (c + dc))
            then box_mark (at m (r + 2 * dr) (c + 2 * dc))
            else at m qr qc))"
  proof (cases rule: try_move_cases)
    case step
    have nb: "\<not> is_box (at m (r + dr) (c + dc))" using step(2) by (auto simp: is_box_def)
    have "inside m' = inside m" by (auto simp: step(3) fun_eq_iff)
    moreover have "\<forall>qr qc. inside m qr qc \<longrightarrow> at m' qr qc =
           (if (qr, qc) = (r, c) then vacated (at m r c)
            else if (qr, qc) = (r + dr, c + dc) then player_mark (at m (r + dr) (c + dc))
            else at m qr qc)"
      using step(1) ins by (auto simp: step(3) at_upd)
    ultimately show ?thesis using step nb by simp
  next
    case push
    have "inside m' = inside m" by (auto simp: push(5) fun_eq_iff)
    moreover have "\<forall>qr qc. inside m qr qc \<longrightarrow> at m' qr qc =
           (if (qr, qc) = (r, c) then vacated (at m r c)
            else if (qr, qc) = (r + dr, c + dc) then player_mark (at m (r + dr) (c + dc))
            else if (qr, qc) = (r + 2 * dr, c + 2 * dc)
            then box_mark (at m (r + 2 * dr) (c + 2 * dc))
            else at m qr qc)"
      using push(1,3) ins by (auto simp: push(5) at_upd)
    ultimately show ?thesis using push by simp
  qed
  then show "inside m' = inside m"
    and "p' = (r + dr, c + dc)" and "inside m (r + dr) (c + dc)"
    and "at m (r + dr) (c + dc) = FLOOR \<or> at m (r + dr) (c + dc) = GOAL
         \<or> is_box (at m (r + dr) (c + dc))"
    and "is_box (at m (r + dr) (c + dc)) \<Longrightarrow> inside m (r + 2 * dr) (c + 2 * dc)
           \<and> (at m (r + 2 * dr) (c + 2 * dc) = FLOOR \<or> at m (r + 2 * dr) (c + 2 * dc) = GOAL)
           \<and> (r + dr, c + dc) \<in> set bs
           \<and> bs' = remove1 (r + dr, c + dc) bs @ [(r + 2 * dr, c + 2 * dc)]"
    and "\<not> is_box (at m (r + dr) (c + dc)) \<Longrightarrow> bs' = bs"
    and "\<And>qr qc. inside m qr qc \<Longrightarrow> at m' qr qc =
           (if (qr, qc) = (r, c) then vacated (at m r c)
            else if (qr, qc) = (r + dr, c + dc) then player_mark (at m (r + dr) (c + dc))
            else if (qr, qc) = (r + 2 * dr, c + 2 * dc) \<and> is_box (at m (r + dr) (c + dc))
            then box_mark (at m (r + 2 * dr) (c + 2 * dc))
            else at m qr qc)"
    by blast+
qed

lemma try_move_goals:
  assumes tm: "try_move m (r, c) bs (dr, dc) = Inr (Some (m', p', bs'))"
    and ins: "inside m r c" and pl: "is_player (at m r c)"
  shows "marked is_goal m' = marked is_goal m"
proof (rule marked_eqI, rule set_eqI)
  fix q :: pos
  obtain qr qc where q: "q = (qr, qc)" by (cases q)
  note f = try_move_at [OF tm ins pl]
  have pg: "is_goal (at m r c) = (at m r c = PLAYER_ON_GOAL)"
    using pl by (auto simp: is_player_def is_goal_def)
  have dg: "is_goal (at m (r + dr) (c + dc)) =
      (at m (r + dr) (c + dc) = GOAL \<or> at m (r + dr) (c + dc) = BOX_ON_GOAL)"
    using f(4) by (auto simp: is_box_def is_goal_def)
  have bg: "is_box (at m (r + dr) (c + dc)) \<Longrightarrow>
      is_goal (at m (r + 2 * dr) (c + 2 * dc)) = (at m (r + 2 * dr) (c + 2 * dc) = GOAL)"
    using f(5) by (auto simp: is_goal_def)
  show "q \<in> set (marked is_goal m') \<longleftrightarrow> q \<in> set (marked is_goal m)"
    unfolding q marked_mem f(1)
    using f(7) [of qr qc] pg dg bg by (cases "inside m qr qc") (auto split: if_splits)
qed


lemma try_move_boxes:
  assumes tm: "try_move m (r, c) bs (dr, dc) = Inr (Some (m', p', bs'))"
    and ins: "inside m r c" and pl: "is_player (at m r c)"
    and bs: "set bs = set (marked is_box m)" "distinct bs"
  shows "set bs' = set (marked is_box m') \<and> distinct bs'"
proof -
  note f = try_move_at [OF tm ins pl]
  note nz = try_move_nonzero [OF tm ins pl]
  have npb: "\<not> is_box (at m r c)" using pl by (auto simp: is_player_def is_box_def)
  have mem: "(qr, qc) \<in> set (marked is_box m') \<longleftrightarrow>
      inside m qr qc \<and> is_box (at m' qr qc)" for qr qc
    by (simp add: marked_mem f(1))
  show ?thesis
  proof (cases "is_box (at m (r + dr) (c + dc))")
    case False
    have "set (marked is_box m') = set (marked is_box m)"
    proof (rule set_eqI)
      fix q :: pos
      obtain qr qc where q: "q = (qr, qc)" by (cases q)
      show "q \<in> set (marked is_box m') \<longleftrightarrow> q \<in> set (marked is_box m)"
        unfolding q mem using f(7) [of qr qc] False npb
        by (cases "inside m qr qc") (auto simp: marked_mem split: if_splits)
    qed
    with f(6) [OF False] bs show ?thesis by simp
  next
    case True
    note g = f(5) [OF True]
    have nb2: "\<not> is_box (at m (r + 2 * dr) (c + 2 * dc))"
      using g by (auto simp: is_box_def)
    have ne: "(r + 2 * dr, c + 2 * dc) \<noteq> (r + dr, c + dc)" using nz by auto
    have ne2: "(r + 2 * dr, c + 2 * dc) \<noteq> (r, c)" using nz by auto
    have ne3: "(r + dr, c + dc) \<noteq> (r, c)" using nz by auto
    have "set (marked is_box m') =
        insert (r + 2 * dr, c + 2 * dc) (set (marked is_box m) - {(r + dr, c + dc)})"
    proof (rule set_eqI)
      fix q :: pos
      obtain qr qc where q: "q = (qr, qc)" by (cases q)
      show "q \<in> set (marked is_box m') \<longleftrightarrow>
          q \<in> insert (r + 2 * dr, c + 2 * dc) (set (marked is_box m) - {(r + dr, c + dc)})"
        unfolding q mem using f(7) [of qr qc] True npb nb2 g ne ne2 ne3
        by (cases "inside m qr qc") (auto simp: marked_mem split: if_splits)
    qed
    moreover have "(r + 2 * dr, c + 2 * dc) \<notin> set bs"
      using nb2 g bs(1) by (simp add: marked_mem)
    ultimately show ?thesis using g bs by (auto simp: set_remove1_eq)
  qed
qed

lemma try_move_walls:
  assumes tm: "try_move m (r, c) bs (dr, dc) = Inr (Some (m', p', bs'))"
    and ins: "inside m r c" and pl: "is_player (at m r c)" and q: "inside m qr qc"
  shows "at m' qr qc = WALL \<longleftrightarrow> at m qr qc = WALL"
proof -
  note f = try_move_at [OF tm ins pl]
  have "at m r c \<noteq> WALL" using pl by (auto simp: is_player_def)
  moreover have "at m (r + dr) (c + dc) \<noteq> WALL" using f(4) by (auto simp: is_box_def)
  moreover have "is_box (at m (r + dr) (c + dc)) \<Longrightarrow> at m (r + 2 * dr) (c + 2 * dc) \<noteq> WALL"
    using f(5) by auto
  ultimately show ?thesis using f(7) [OF q] by (auto split: if_splits)
qed

lemma get_player_Some:
  assumes "get_player_and_boxes_positions m = (Some (r, c), bs)"
  shows "inside m r c" "is_player (at m r c)" "bs = marked is_box m"
proof -
  from assms have ne: "marked is_player m \<noteq> []" and l: "(r, c) = last (marked is_player m)"
    and "bs = marked is_box m"
    by (auto simp: get_player_and_boxes_marked split: if_splits)
  then show "bs = marked is_box m" by simp
  from ne l have "(r, c) \<in> set (marked is_player m)" by (metis last_in_set)
  then show "inside m r c" "is_player (at m r c)" by (simp_all add: marked_mem)
qed

section \<open>Replaying a move sequence\<close>

text \<open>
  \<open>apply_move\<close> is the solver's move step on a state given by its matrix: the player
  and the boxes are read from the matrix as the solver reads them for a dequeued state
  (line 416), and the direction is named by its move character. \<open>None\<close> is a rejected
  move. \<open>replay\<close> applies a move sequence, every move of which must be accepted;
  \<open>is_solved\<close> is \<^verbatim>\<open>is_level_solved\<close> on the boxes and goals of a matrix; a
  sequence \<open>solves\<close> a matrix when its replay ends in a solved one.
\<close>

definition move_delta :: "char \<Rightarrow> (int \<times> int) option" where
  "move_delta move_char = map_of (map (\<lambda>(dr, dc, ch). (ch, (dr, dc))) MOVES) move_char"

definition apply_move :: "matrix \<Rightarrow> char \<Rightarrow> error + matrix option" where
  "apply_move m move_char =
     (case get_player_and_boxes_positions m of
        (None, box_positions) \<Rightarrow> Inl TypeError
      | (Some player_pos, box_positions) \<Rightarrow>
          (case move_delta move_char of
             None \<Rightarrow> Inr None
           | Some d \<Rightarrow>
               bind_err (try_move m player_pos box_positions d) (\<lambda>move.
                 Inr (map_option fst move))))"

fun replay :: "matrix \<Rightarrow> string \<Rightarrow> error + matrix option" where
  "replay m [] = Inr (Some m)"
| "replay m (move_char # path) =
     bind_err (apply_move m move_char) (\<lambda>move.
       case move of None \<Rightarrow> Inr None | Some m' \<Rightarrow> replay m' path)"

definition is_solved :: "matrix \<Rightarrow> bool" where
  "is_solved m =
     is_level_solved (snd (get_player_and_boxes_positions m)) (get_goal_positions m)"

definition solves :: "matrix \<Rightarrow> string \<Rightarrow> bool" where
  "solves m path = (\<exists>m'. replay m path = Inr (Some m') \<and> is_solved m')"

section \<open>The solver returns solutions\<close>

lemma replay_append:
  "replay m (path @ [ch]) =
     bind_err (replay m path) (\<lambda>r. case r of None \<Rightarrow> Inr None | Some m' \<Rightarrow> apply_move m' ch)"
proof (induction path arbitrary: m)
  case Nil
  then show ?case by (auto simp: bind_err_def split: sum.splits option.splits)
next
  case (Cons a path)
  then show ?case by (auto simp: bind_err_def split: sum.splits option.splits)
qed

lemma move_delta_MOVES: "(dr, dc, ch) \<in> set MOVES \<Longrightarrow> move_delta ch = Some (dr, dc)"
  by (auto simp: MOVES_def move_delta_def)

lemma is_level_solved_cong:
  "set bs = set bs' \<Longrightarrow> is_level_solved bs gs = is_level_solved bs' gs"
  by (auto simp: is_level_solved_def)

lemma expand_sound:
  assumes "replay m0 path = Inr (Some cm)"
    and "get_player_and_boxes_positions cm = (Some p, bs)"
    and "gs = get_goal_positions cm" and "set moves \<subseteq> set MOVES"
    and "\<forall>(m, pa) \<in> set queue. replay m0 pa = Inr (Some m) \<and> get_goal_positions m = gs"
  shows "(expand gs cm p bs path moves queue visited = Inr (Return p') \<longrightarrow> solves m0 p')
       \<and> (expand gs cm p bs path moves queue visited = Inr (Continue (q', v')) \<longrightarrow>
           (\<forall>(m, pa) \<in> set q'. replay m0 pa = Inr (Some m) \<and> get_goal_positions m = gs))"
  using assms(4,5)
proof (induction moves arbitrary: queue visited)
  case Nil
  then show ?case by auto
next
  case (Cons mv moves)
  obtain dr dc ch where mv: "mv = (dr, dc, ch)" by (cases mv)
  obtain r c where p: "p = (r, c)" by (cases p)
  note gp = get_player_Some [OF assms(2) [unfolded p]]
  from Cons.prems mv have md: "move_delta ch = Some (dr, dc)"
    by (auto intro: move_delta_MOVES)
  have sub: "set moves \<subseteq> set MOVES" using Cons.prems by auto
  note ih = Cons.IH [OF sub]
  show ?case
  proof (cases "try_move cm p bs (dr, dc)")
    case (Inl e)
    then show ?thesis by (simp add: mv bind_err_def)
  next
    case (Inr res)
    show ?thesis
    proof (cases res)
      case None
      with Inr ih [OF Cons.prems(2)] show ?thesis by (simp add: mv bind_err_def)
    next
      case (Some t)
      obtain m' p'' bs' where t: "t = (m', p'', bs')" by (cases t)
      note tm = Inr [unfolded Some t p]
      have g: "get_goal_positions m' = gs"
        using try_move_goals [OF tm gp(1,2)] assms(3) by (simp add: get_goal_positions_marked)
      have b: "set bs' = set (marked is_box m')"
        using try_move_boxes [OF tm gp(1,2)] gp(3) distinct_marked by simp
      have am: "apply_move cm ch = Inr (Some m')"
        using assms(2) md Inr Some t by (simp add: apply_move_def bind_err_def)
      have rp: "replay m0 (path @ [ch]) = Inr (Some m')"
        by (simp add: replay_append assms(1) bind_err_def am)
      have sol: "is_level_solved bs' gs \<Longrightarrow> solves m0 (path @ [ch])"
        unfolding solves_def is_solved_def
        using rp g is_level_solved_cong [OF b, of gs]
        by (auto simp: get_player_and_boxes_marked)
      have q2: "\<forall>(m, pa) \<in> set (queue @ [(m', path @ [ch])]).
          replay m0 pa = Inr (Some m) \<and> get_goal_positions m = gs"
        using Cons.prems(2) rp g by auto
      show ?thesis
        using ih [OF Cons.prems(2)] ih [OF q2] sol Inr Some t
        by (auto simp: mv bind_err_def Let_def split: sum.splits)
    qed
  qed
qed

lemma bfs_loop_sound:
  assumes "\<forall>(m, pa) \<in> set queue. replay m0 pa = Inr (Some m) \<and> get_goal_positions m = gs"
    and "bfs_loop n gs queue visited = Inr (Some p)"
  shows "solves m0 p"
  using assms
proof (induction n arbitrary: queue visited)
  case 0
  then show ?case by simp
next
  case (Suc n)
  show ?case
  proof (cases queue)
    case Nil
    with Suc.prems show ?thesis by simp
  next
    case (Cons e queue')
    obtain cm path where e: "e = (cm, path)" by (cases e)
    from Suc.prems(1) Cons e have cur: "replay m0 path = Inr (Some cm)"
      "gs = get_goal_positions cm"
      and q: "\<forall>(m, pa) \<in> set queue'. replay m0 pa = Inr (Some m) \<and> get_goal_positions m = gs"
      by auto
    obtain pp bs where gp: "get_player_and_boxes_positions cm = (pp, bs)"
      by (cases "get_player_and_boxes_positions cm")
    show ?thesis
    proof (cases pp)
      case None
      with Suc.prems(2) Cons e gp show ?thesis by simp
    next
      case (Some pl)
      note es = expand_sound [OF cur(1) gp [unfolded Some] cur(2) subset_refl q]
      from Suc.prems(2) Cons e gp Some
      consider "expand gs cm pl bs path MOVES queue' visited = Inr (Return p)"
        | q' v' where "expand gs cm pl bs path MOVES queue' visited = Inr (Continue (q', v'))"
          "bfs_loop n gs q' v' = Inr (Some p)"
        by (auto simp: bind_err_def split: sum.splits loop.splits)
      then show ?thesis
      proof cases
        case 1
        with es [of visited p] show ?thesis by simp
      next
        case 2
        from es [of visited p q' v'] 2(1)
        have "\<forall>(m, pa) \<in> set q'. replay m0 pa = Inr (Some m) \<and> get_goal_positions m = gs"
          by simp
        from Suc.IH [OF this 2(2)] show ?thesis .
      qed
    qed
  qed
qed

lemma solve_sound:
  assumes "solve_sokoban_bfs m n = Inr (Some p)"
  shows "solves m p"
proof -
  obtain pp bs where gp: "get_player_and_boxes_positions m = (pp, bs)"
    by (cases "get_player_and_boxes_positions m")
  from assms gp obtain pl where pl: "pp = Some pl" and ne: "m \<noteq> []"
    by (cases pp) (auto simp: solve_sokoban_bfs_def Let_def split: if_splits)
  show ?thesis
  proof (cases "is_level_solved bs (get_goal_positions m)")
    case True
    with assms gp pl ne have "p = []"
      by (auto simp: solve_sokoban_bfs_def Let_def split: if_splits)
    with True gp show ?thesis by (simp add: solves_def is_solved_def)
  next
    case False
    with assms gp pl ne have "bfs_loop (nat n) (get_goal_positions m) [(m, [])]
        {(pl, sort bs)} = Inr (Some p)"
      by (auto simp: solve_sokoban_bfs_def Let_def split: if_splits)
    then show ?thesis by (intro bfs_loop_sound [rotated]) auto
  qed
qed




section \<open>Length of the returned path (C2)\<close>














section \<open>The fallback bank against the solver (C8)\<close>

text \<open>
  Moves keep the number of boxes and the goals of a grid, and a solved grid has as many
  boxes as goals: a grid whose counts differ has no solution, and the solver returns no
  path for it.
\<close>

lemma apply_move_counts:
  assumes "apply_move m ch = Inr (Some m')"
  shows "length (marked is_box m') = length (marked is_box m)
       \<and> marked is_goal m' = marked is_goal m"
proof -
  obtain pp bs where gp: "get_player_and_boxes_positions m = (pp, bs)"
    by (cases "get_player_and_boxes_positions m")
  with assms obtain r c d p' bs' where pp: "pp = Some (r, c)"
    and tm: "try_move m (r, c) bs d = Inr (Some (m', p', bs'))"
    by (cases pp) (auto simp: apply_move_def bind_err_def split: option.splits sum.splits)
  obtain dr dc where d: "d = (dr, dc)" by (cases d)
  note g = get_player_Some [OF gp [unfolded pp]]
  note f = try_move_at [OF tm [unfolded d] g(1,2)]
  from try_move_boxes [OF tm [unfolded d] g(1,2)] g(3) distinct_marked
  have b: "set bs' = set (marked is_box m')" "distinct bs'" by simp_all
  have "length bs' = length bs"
  proof (cases "is_box (at m (r + dr) (c + dc))")
    case True
    from f(5) [OF True] show ?thesis by (simp add: length_remove1)
      (metis One_nat_def Suc_pred length_pos_if_in_set)
  next
    case False
    from f(6) [OF False] show ?thesis by simp
  qed
  moreover have "length bs' = length (marked is_box m')"
    using b distinct_marked [of is_box m'] by (metis distinct_card)
  ultimately show ?thesis
    using g(3) try_move_goals [OF tm [unfolded d] g(1,2)] by simp
qed

lemma replay_counts:
  "replay m path = Inr (Some m') \<Longrightarrow>
     length (marked is_box m') = length (marked is_box m)
     \<and> marked is_goal m' = marked is_goal m"
proof (induction path arbitrary: m)
  case Nil
  then show ?case by simp
next
  case (Cons ch path)
  then obtain m1 where a: "apply_move m ch = Inr (Some m1)" and r: "replay m1 path = Inr (Some m')"
    by (auto simp: bind_err_def split: sum.splits option.splits)
  from Cons.IH [OF r] apply_move_counts [OF a] show ?case by simp
qed

lemma is_solved_counts:
  "is_solved m \<Longrightarrow> length (marked is_box m) = length (marked is_goal m)"
  by (auto simp: is_solved_def is_level_solved_def get_player_and_boxes_marked
      get_goal_positions_marked distinct_card [OF distinct_marked] split: if_splits)

lemma mismatch_unsolvable:
  assumes "length (marked is_box m) \<noteq> length (marked is_goal m)"
  shows "\<not> solves m path" and "solve_sokoban_bfs m n \<noteq> Inr (Some path)"
proof -
  show "\<not> solves m path"
  proof
    assume "solves m path"
    then obtain m' where "replay m path = Inr (Some m')" "is_solved m'"
      by (auto simp: solves_def)
    with replay_counts is_solved_counts assms show False by metis
  qed
  with solve_sound show "solve_sokoban_bfs m n \<noteq> Inr (Some path)" by blast
qed

lemma FALLBACK_4_counts:
  "length (marked is_box (fst (FALLBACK_LEVELS ! 3))) = 2"
  "length (marked is_goal (fst (FALLBACK_LEVELS ! 3))) = 3"
  by (simp_all add: FALLBACK_LEVELS_def is_box_def is_goal_def)

lemma FALLBACK_5_counts:
  "length (marked is_box (fst (FALLBACK_LEVELS ! 4))) = 2"
  "length (marked is_goal (fst (FALLBACK_LEVELS ! 4))) = 3"
  by (simp_all add: FALLBACK_LEVELS_def is_box_def is_goal_def)

text \<open>
  C8 fails on the bank as it stands: the fourth and the fifth entry have two boxes and
  three goals each, so no move sequence solves them and \<^verbatim>\<open>solve_sokoban_bfs\<close>
  returns no path for either.
\<close>

theorem fallback_levels_4_5_unsolved:
  "length FALLBACK_LEVELS = 5
   \<and> solve (fst (FALLBACK_LEVELS ! 3)) \<noteq> Inr (Some path)
   \<and> solve (fst (FALLBACK_LEVELS ! 4)) \<noteq> Inr (Some path)
   \<and> \<not> solves (fst (FALLBACK_LEVELS ! 3)) path
   \<and> \<not> solves (fst (FALLBACK_LEVELS ! 4)) path"
  using mismatch_unsolvable [of "fst (FALLBACK_LEVELS ! 3)"]
    mismatch_unsolvable [of "fst (FALLBACK_LEVELS ! 4)"]
  by (simp add: FALLBACK_4_counts FALLBACK_5_counts solve_def) (simp add: FALLBACK_LEVELS_def)

section \<open>Soundness of the freeze detector (C3)\<close>

text \<open>
  A square is \<open>solid\<close> for a set \<open>T\<close> of squares when it is outside the grid, a
  wall, or in \<open>T\<close>. A square is \<open>stuck\<close> when it holds a box off the goals and, on
  each axis, one of its two neighbours is solid. \<open>blocked_inv\<close> is what a call of
  \<^verbatim>\<open>is_box_blocked\<close> that answers true has established: every box it newly checked,
  but for the box of the call, is stuck for the returned set, and the box of the call has
  its left (upper) neighbour solid.
\<close>

definition solid :: "matrix \<Rightarrow> pos set \<Rightarrow> pos \<Rightarrow> bool" where
  "solid m T q = (\<not> inside m (fst q) (snd q) \<or> at m (fst q) (snd q) = WALL \<or> q \<in> T)"

definition stuck :: "matrix \<Rightarrow> pos set \<Rightarrow> pos \<Rightarrow> bool" where
  "stuck m T x =
     (case x of (r, c) \<Rightarrow>
        inside m r c \<and> at m r c = BOX
        \<and> (solid m T (r, c - 1) \<or> solid m T (r, c + 1))
        \<and> (solid m T (r - 1, c) \<or> solid m T (r + 1, c)))"

definition low_solid :: "matrix \<Rightarrow> pos set \<Rightarrow> pos \<Rightarrow> axis \<Rightarrow> bool" where
  "low_solid m T x ax =
     (case x of (r, c) \<Rightarrow>
        (case ax of Horizontal \<Rightarrow> solid m T (r, c - 1) | Vertical \<Rightarrow> solid m T (r - 1, c)))"

definition blocked_inv :: "matrix \<Rightarrow> pos \<Rightarrow> axis \<Rightarrow> pos set \<Rightarrow> pos set \<Rightarrow> bool" where
  "blocked_inv m x ax C C' =
     (C \<subseteq> C' \<and> x \<in> C' \<and> (\<forall>y \<in> C' - C. y \<noteq> x \<longrightarrow> stuck m C' y)
      \<and> (x \<notin> C \<longrightarrow> at m (fst x) (snd x) = BOX \<and> low_solid m C' x ax))"

lemma solid_mono: "solid m T q \<Longrightarrow> T \<subseteq> T' \<Longrightarrow> solid m T' q"
  by (auto simp: solid_def)

lemma stuck_mono: "stuck m T x \<Longrightarrow> T \<subseteq> T' \<Longrightarrow> stuck m T' x"
  by (cases x) (auto simp: stuck_def intro: solid_mono)

lemma side_blocked_True:
  assumes "side_blocked e n recurse C0 = Inr (True, C1)"
  obtains (edge) "e" "C1 = C0"
  | (wall) "\<not> e" "n = Inr WALL" "C1 = C0"
  | (box) x where "\<not> e" "n = Inr x" "x = BOX \<or> x = BOX_ON_GOAL" "recurse C0 = Inr (True, C1)"
  using assms by (auto simp: side_blocked_def bind_err_def split: if_splits sum.splits)

text \<open>
  One side of a box \<open>x\<close>, with neighbour \<open>q\<close> on that side: when the side is found
  blocked, the box is at the edge or \<open>q\<close> is solid, and every box newly checked is
  stuck.
\<close>

lemma side_step:
  assumes sb: "side_blocked e (cell m qr qc) recurse C0 = Inr (True, C1)"
    and nn: "\<not> e \<Longrightarrow> 0 \<le> qr \<and> 0 \<le> qc"
    and x: "x \<in> C0"
    and adj: "\<And>T. x \<in> T \<Longrightarrow> at m qr qc = BOX \<Longrightarrow> inside m qr qc \<Longrightarrow>
        low_solid m T (qr, qc) ax' \<Longrightarrow> stuck m T (qr, qc)"
    and ih: "\<And>ch. \<not> e \<Longrightarrow> cell m qr qc = Inr ch \<Longrightarrow> ch = BOX \<or> ch = BOX_ON_GOAL \<Longrightarrow>
        recurse C0 = Inr (True, C1) \<Longrightarrow> blocked_inv m (qr, qc) ax' C0 C1"
  shows "C0 \<subseteq> C1 \<and> (e \<or> solid m C1 (qr, qc)) \<and> (\<forall>y \<in> C1 - C0. stuck m C1 y)"
  using sb
proof (cases rule: side_blocked_True)
  case edge
  then show ?thesis by auto
next
  case wall
  from cell_Inr_nonneg [OF wall(2)] nn wall(1) have "inside m qr qc" "at m qr qc = WALL" by auto
  with wall show ?thesis by (auto simp: solid_def)
next
  case (box ch)
  from cell_Inr_nonneg [OF box(2)] nn box(1) have i: "inside m qr qc" by auto
  note bi = ih [OF box(1,2,3,4), unfolded blocked_inv_def]
  from bi have sub: "C0 \<subseteq> C1" and qin: "(qr, qc) \<in> C1" by auto
  have "stuck m C1 y" if y: "y \<in> C1 - C0" for y
  proof (cases "y = (qr, qc)")
    case True
    with y bi have "at m qr qc = BOX" "low_solid m C1 (qr, qc) ax'" by auto
    with adj [of C1] x sub i True show ?thesis by auto
  next
    case False
    with y bi show ?thesis by auto
  qed
  with sub qin show ?thesis by (auto simp: solid_def)
qed

lemma box_off_goal:
  "is_box (at m r c) \<Longrightarrow> inside m r c \<Longrightarrow> set (marked is_goal m) \<subseteq> set gs \<Longrightarrow>
     (r, c) \<notin> set gs \<Longrightarrow> at m r c = BOX"
  using marked_mem [of r c is_goal m] by (auto simp: is_box_def is_goal_def)

lemma is_box_blocked_inv:
  "is_box_blocked m gs rows cols x ax C = Inr (True, C') \<Longrightarrow>
   inside m (fst x) (snd x) \<Longrightarrow> is_box (at m (fst x) (snd x)) \<Longrightarrow>
   set (marked is_goal m) \<subseteq> set gs \<Longrightarrow> blocked_inv m x ax C C'"
proof (induction m gs rows cols x ax C arbitrary: C' rule: is_box_blocked.induct)
  case (1 m gs rows cols r c ax C)
  note eq = "1.prems"(1) [unfolded is_box_blocked.simps [of m gs rows cols r c ax C]]
  from "1.prems" have ins: "inside m r c" and bx: "is_box (at m r c)"
    and gl: "set (marked is_goal m) \<subseteq> set gs" by simp_all
  from ins have nneg: "0 \<le> r" "0 \<le> c" by (auto simp: inside_def)
  show ?case
  proof (cases "(r, c) \<in> C")
    case True
    with eq show ?thesis by (auto simp: blocked_inv_def)
  next
    case nc: False
    with eq have ng: "(r, c) \<notin> set gs" by (auto split: if_splits)
    note box = box_off_goal [OF bx ins gl ng]
    show ?thesis
    proof (cases ax)
      case Horizontal
      with nc ng eq obtain C1 where
        l: "side_blocked (c = 0) (cell m r (c - 1))
              (is_box_blocked m gs rows cols (r, c - 1) Vertical) (insert (r, c) C) = Inr (True, C1)"
        and rt: "side_blocked (c = cols - 1) (cell m r (c + 1))
              (is_box_blocked m gs rows cols (r, c + 1) Vertical) C1 = Inr (True, C')"
        by (auto simp: bind_err_def split: sum.splits prod.splits)
      have L: "insert (r, c) C \<subseteq> C1 \<and> (c = 0 \<or> solid m C1 (r, c - 1))
          \<and> (\<forall>y \<in> C1 - insert (r, c) C. stuck m C1 y)"
      proof (rule side_step [where qr = r and qc = "c - 1" and x = "(r, c)" and ax' = Vertical])
        show "side_blocked (c = 0) (cell m r (c - 1))
            (is_box_blocked m gs rows cols (r, c - 1) Vertical) (insert (r, c) C) = Inr (True, C1)"
          by (rule l)
        show "(r, c) \<in> insert (r, c) C" by simp
        show "\<not> c = 0 \<Longrightarrow> 0 \<le> r \<and> 0 \<le> c - 1" using nneg by auto
        show "stuck m T (r, c - 1)" if "(r, c) \<in> T" "at m r (c - 1) = BOX" "inside m r (c - 1)"
          "low_solid m T (r, c - 1) Vertical" for T
          using that by (auto simp: stuck_def low_solid_def solid_def)
        show "blocked_inv m (r, c - 1) Vertical (insert (r, c) C) C1"
          if "c \<noteq> 0" "cell m r (c - 1) = Inr ch" "ch = BOX \<or> ch = BOX_ON_GOAL"
            "is_box_blocked m gs rows cols (r, c - 1) Vertical (insert (r, c) C) = Inr (True, C1)"
          for ch
        proof -
          from cell_Inr_nonneg [OF that(2)] nneg that(1,3)
          have "inside m r (c - 1)" "is_box (at m r (c - 1))" by (auto simp: is_box_def)
          with "1.IH"(1) [OF nc ng Horizontal that(1,2,3) that(4)] gl show ?thesis by simp
        qed
      qed
      have R: "C1 \<subseteq> C' \<and> (c = cols - 1 \<or> solid m C' (r, c + 1))
          \<and> (\<forall>y \<in> C' - C1. stuck m C' y)"
      proof (rule side_step [where qr = r and qc = "c + 1" and x = "(r, c)" and ax' = Vertical])
        show "side_blocked (c = cols - 1) (cell m r (c + 1))
            (is_box_blocked m gs rows cols (r, c + 1) Vertical) C1 = Inr (True, C')"
          by (rule rt)
        show "\<not> c = cols - 1 \<Longrightarrow> 0 \<le> r \<and> 0 \<le> c + 1" using nneg by auto
        show "(r, c) \<in> C1" using L by auto
        show "stuck m T (r, c + 1)" if "(r, c) \<in> T" "at m r (c + 1) = BOX" "inside m r (c + 1)"
          "low_solid m T (r, c + 1) Vertical" for T
          using that by (auto simp: stuck_def low_solid_def solid_def)
        show "blocked_inv m (r, c + 1) Vertical C1 C'"
          if "c \<noteq> cols - 1" "cell m r (c + 1) = Inr ch" "ch = BOX \<or> ch = BOX_ON_GOAL"
            "is_box_blocked m gs rows cols (r, c + 1) Vertical C1 = Inr (True, C')"
          for ch
        proof -
          from cell_Inr_nonneg [OF that(2)] nneg that(1,3)
          have "inside m r (c + 1)" "is_box (at m r (c + 1))" by (auto simp: is_box_def)
          with "1.IH"(2) [OF nc ng Horizontal l refl that(1,2,3) that(4)] gl
          show ?thesis by simp
        qed
      qed
      have lo: "solid m C1 (r, c - 1)"
        using L ins by (auto simp: solid_def inside_def)
      have "stuck m C' y" if "y \<in> C' - C" "y \<noteq> (r, c)" for y
      proof (cases "y \<in> C1")
        case True
        with that L have "stuck m C1 y" by auto
        with R show ?thesis by (auto intro: stuck_mono)
      next
        case False
        with that R show ?thesis by auto
      qed
      with L R lo box show ?thesis
        by (auto simp: blocked_inv_def low_solid_def Horizontal intro: solid_mono)
    next
      case Vertical
      with nc ng eq obtain C1 where
        l: "side_blocked (r = 0) (cell m (r - 1) c)
              (is_box_blocked m gs rows cols (r - 1, c) Horizontal) (insert (r, c) C) = Inr (True, C1)"
        and rt: "side_blocked (r = rows - 1) (cell m (r + 1) c)
              (is_box_blocked m gs rows cols (r + 1, c) Horizontal) C1 = Inr (True, C')"
        by (auto simp: bind_err_def split: sum.splits prod.splits)
      have L: "insert (r, c) C \<subseteq> C1 \<and> (r = 0 \<or> solid m C1 (r - 1, c))
          \<and> (\<forall>y \<in> C1 - insert (r, c) C. stuck m C1 y)"
      proof (rule side_step [where qr = "r - 1" and qc = c and x = "(r, c)" and ax' = Horizontal])
        show "side_blocked (r = 0) (cell m (r - 1) c)
            (is_box_blocked m gs rows cols (r - 1, c) Horizontal) (insert (r, c) C) = Inr (True, C1)"
          by (rule l)
        show "(r, c) \<in> insert (r, c) C" by simp
        show "\<not> r = 0 \<Longrightarrow> 0 \<le> r - 1 \<and> 0 \<le> c" using nneg by auto
        show "stuck m T (r - 1, c)" if "(r, c) \<in> T" "at m (r - 1) c = BOX" "inside m (r - 1) c"
          "low_solid m T (r - 1, c) Horizontal" for T
          using that by (auto simp: stuck_def low_solid_def solid_def)
        show "blocked_inv m (r - 1, c) Horizontal (insert (r, c) C) C1"
          if "r \<noteq> 0" "cell m (r - 1) c = Inr ch" "ch = BOX \<or> ch = BOX_ON_GOAL"
            "is_box_blocked m gs rows cols (r - 1, c) Horizontal (insert (r, c) C) = Inr (True, C1)"
          for ch
        proof -
          from cell_Inr_nonneg [OF that(2)] nneg that(1,3)
          have "inside m (r - 1) c" "is_box (at m (r - 1) c)" by (auto simp: is_box_def)
          with "1.IH"(3) [OF nc ng Vertical that(1,2,3) that(4)] gl show ?thesis by simp
        qed
      qed
      have R: "C1 \<subseteq> C' \<and> (r = rows - 1 \<or> solid m C' (r + 1, c))
          \<and> (\<forall>y \<in> C' - C1. stuck m C' y)"
      proof (rule side_step [where qr = "r + 1" and qc = c and x = "(r, c)" and ax' = Horizontal])
        show "side_blocked (r = rows - 1) (cell m (r + 1) c)
            (is_box_blocked m gs rows cols (r + 1, c) Horizontal) C1 = Inr (True, C')"
          by (rule rt)
        show "\<not> r = rows - 1 \<Longrightarrow> 0 \<le> r + 1 \<and> 0 \<le> c" using nneg by auto
        show "(r, c) \<in> C1" using L by auto
        show "stuck m T (r + 1, c)" if "(r, c) \<in> T" "at m (r + 1) c = BOX" "inside m (r + 1) c"
          "low_solid m T (r + 1, c) Horizontal" for T
          using that by (auto simp: stuck_def low_solid_def solid_def)
        show "blocked_inv m (r + 1, c) Horizontal C1 C'"
          if "r \<noteq> rows - 1" "cell m (r + 1) c = Inr ch" "ch = BOX \<or> ch = BOX_ON_GOAL"
            "is_box_blocked m gs rows cols (r + 1, c) Horizontal C1 = Inr (True, C')"
          for ch
        proof -
          from cell_Inr_nonneg [OF that(2)] nneg that(1,3)
          have "inside m (r + 1) c" "is_box (at m (r + 1) c)" by (auto simp: is_box_def)
          with "1.IH"(4) [OF nc ng Vertical l refl that(1,2,3) that(4)] gl
          show ?thesis by simp
        qed
      qed
      have lo: "solid m C1 (r - 1, c)"
        using L ins by (auto simp: solid_def inside_def)
      have "stuck m C' y" if "y \<in> C' - C" "y \<noteq> (r, c)" for y
      proof (cases "y \<in> C1")
        case True
        with that L have "stuck m C1 y" by auto
        with R show ?thesis by (auto intro: stuck_mono)
      next
        case False
        with that R show ?thesis by auto
      qed
      with L R lo box show ?thesis
        by (auto simp: blocked_inv_def low_solid_def Vertical intro: solid_mono)
    qed
  qed
qed


text \<open>
  A set of squares is \<open>frozen\<close> when each of them is stuck for the set. No move
  changes a frozen set: pushing one of its boxes needs both neighbours on one axis free.
\<close>

definition frozen :: "matrix \<Rightarrow> pos set \<Rightarrow> bool" where
  "frozen m T = (\<forall>x \<in> T. stuck m T x)"

lemma freeze_boxes_True:
  "freeze_boxes m gs rows cols bs = Inr True \<Longrightarrow>
     \<exists>b \<in> set bs. b \<notin> set gs
       \<and> (\<exists>SH SV. is_box_blocked m gs rows cols b Horizontal {} = Inr (True, SH)
                 \<and> is_box_blocked m gs rows cols b Vertical {} = Inr (True, SV))"
proof (induction bs)
  case Nil
  then show ?case by simp
next
  case (Cons b bs)
  show ?case
  proof (cases "b \<in> set gs")
    case True
    with Cons show ?thesis by auto
  next
    case False
    with Cons.prems obtain hb SH vb SV where
      h: "is_box_blocked m gs rows cols b Horizontal {} = Inr (hb, SH)"
      and v: "is_box_blocked m gs rows cols b Vertical {} = Inr (vb, SV)"
      by (auto simp: bind_err_def split: sum.splits)
    show ?thesis
    proof (cases "hb \<and> vb")
      case True
      with h v False show ?thesis by auto
    next
      case nb: False
      with Cons.prems False h v have "freeze_boxes m gs rows cols bs = Inr True"
        by (auto simp: bind_err_def)
      from Cons.IH [OF this] show ?thesis by auto
    qed
  qed
qed

lemma detect_freeze_frozen:
  assumes "detect_freeze_deadlocks m (marked is_box m) gs = Inr True"
    and gl: "set (marked is_goal m) \<subseteq> set gs"
  shows "\<exists>T b. b \<in> T \<and> frozen m T"
proof -
  from assms(1) have "freeze_boxes m gs (int (length m)) (int (length (hd m))) (marked is_box m)
      = Inr True"
    by (auto simp: detect_freeze_deadlocks_def split: if_splits)
  from freeze_boxes_True [OF this] obtain b SH SV where b: "b \<in> set (marked is_box m)"
    and h: "is_box_blocked m gs (int (length m)) (int (length (hd m))) b Horizontal {} = Inr (True, SH)"
    and v: "is_box_blocked m gs (int (length m)) (int (length (hd m))) b Vertical {} = Inr (True, SV)"
    by blast
  obtain r c where rc: "b = (r, c)" by (cases b)
  from b have ib: "inside m (fst b) (snd b)" "is_box (at m (fst b) (snd b))"
    by (simp_all add: rc marked_mem)
  note H = is_box_blocked_inv [OF h ib gl, unfolded blocked_inv_def]
  note V = is_box_blocked_inv [OF v ib gl, unfolded blocked_inv_def]
  have "stuck m (SH \<union> SV) x" if "x \<in> SH \<union> SV" for x
  proof (cases "x = b")
    case True
    from H V have "at m r c = BOX" "solid m SH (r, c - 1)" "solid m SV (r - 1, c)"
      by (auto simp: rc low_solid_def)
    then have "solid m (SH \<union> SV) (r, c - 1)" "solid m (SH \<union> SV) (r - 1, c)"
      by (auto intro: solid_mono)
    with ib \<open>at m r c = BOX\<close> show ?thesis by (simp add: True rc stuck_def)
  next
    case False
    with that H V have "stuck m SH x \<or> stuck m SV x" by auto
    then show ?thesis by (auto intro: stuck_mono)
  qed
  moreover from H have "b \<in> SH \<union> SV" by auto
  ultimately show ?thesis unfolding frozen_def by blast
qed

lemma frozen_move:
  assumes fr: "frozen m T"
    and tm: "try_move m (r, c) bs (dr, dc) = Inr (Some (m', p', bs'))"
    and ins: "inside m r c" and pl: "is_player (at m r c)" and d: "(dr, dc) \<in> set DIRS"
  shows "frozen m' T"
proof -
  note f = try_move_at [OF tm ins pl]
  have box: "at m xr xc = BOX" "inside m xr xc" if "(xr, xc) \<in> T" for xr xc
    using fr that by (auto simp: frozen_def stuck_def)
  have ns_player: "\<not> solid m T (r, c)"
    using ins pl box [of r c] by (auto simp: solid_def is_player_def)
  have ns_free: "\<not> solid m T (qr, qc)"
    if "inside m qr qc" "at m qr qc = FLOOR \<or> at m qr qc = GOAL" for qr qc
    using that box [of qr qc] by (auto simp: solid_def)
  have sol: "solid m' T q" if "solid m T q" for q
    using that try_move_walls [OF tm ins pl, of "fst q" "snd q"]
    by (auto simp: solid_def f(1))
  have "stuck m' T x" if x: "x \<in> T" for x
  proof -
    obtain xr xc where xe: "x = (xr, xc)" by (cases x)
    from fr x have st: "stuck m T (xr, xc)" by (simp add: frozen_def xe)
    note bx = box [OF x [unfolded xe]]
    have n1: "(xr, xc) \<noteq> (r, c)" using bx pl by (auto simp: is_player_def)
    have n2: "(xr, xc) \<noteq> (r + dr, c + dc)"
    proof
      assume e: "(xr, xc) = (r + dr, c + dc)"
      with bx have "is_box (at m (r + dr) (c + dc))" by (simp add: is_box_def)
      from f(5) [OF this] have "\<not> solid m T (r + 2 * dr, c + 2 * dc)"
        by (intro ns_free) auto
      with e ns_player st d show False
        by (auto simp: stuck_def DIRS_def add.commute)
    qed
    have n3: "is_box (at m (r + dr) (c + dc)) \<Longrightarrow> (xr, xc) \<noteq> (r + 2 * dr, c + 2 * dc)"
      using f(5) bx by auto
    from f(7) [OF bx(2)] n1 n2 n3 bx have "at m' xr xc = BOX" by (auto split: if_splits)
    with st sol show ?thesis by (auto simp: xe stuck_def f(1))
  qed
  then show ?thesis by (simp add: frozen_def)
qed

lemma move_delta_DIRS: "move_delta ch = Some d \<Longrightarrow> d \<in> set DIRS"
  by (auto simp: move_delta_def MOVES_def DIRS_def split: if_splits)

lemma frozen_apply_move:
  assumes "frozen m T" "apply_move m ch = Inr (Some m')"
  shows "frozen m' T"
proof -
  obtain pp bs where gp: "get_player_and_boxes_positions m = (pp, bs)"
    by (cases "get_player_and_boxes_positions m")
  with assms(2) obtain r c d p' bs' where pp: "pp = Some (r, c)"
    and md: "move_delta ch = Some d"
    and tm: "try_move m (r, c) bs d = Inr (Some (m', p', bs'))"
    by (cases pp) (auto simp: apply_move_def bind_err_def split: option.splits sum.splits)
  obtain dr dc where d: "d = (dr, dc)" by (cases d)
  note g = get_player_Some [OF gp [unfolded pp]]
  from frozen_move [OF assms(1) tm [unfolded d] g(1,2)] move_delta_DIRS [OF md] d
  show ?thesis by simp
qed

lemma frozen_replay:
  "frozen m T \<Longrightarrow> replay m path = Inr (Some m') \<Longrightarrow> frozen m' T"
proof (induction path arbitrary: m)
  case Nil
  then show ?case by simp
next
  case (Cons ch path)
  from Cons.prems(2) obtain m1 where a: "apply_move m ch = Inr (Some m1)"
    and r: "replay m1 path = Inr (Some m')"
    by (auto simp: bind_err_def split: sum.splits option.splits)
  from Cons.IH [OF frozen_apply_move [OF Cons.prems(1) a] r] show ?case .
qed

lemma frozen_not_solved:
  assumes "frozen m T" "b \<in> T"
  shows "\<not> is_solved m"
proof -
  obtain r c where rc: "b = (r, c)" by (cases b)
  from assms have "inside m r c" "at m r c = BOX" by (auto simp: frozen_def stuck_def rc)
  then have "(r, c) \<in> set (marked is_box m)" "(r, c) \<notin> set (marked is_goal m)"
    by (simp_all add: marked_mem is_box_def is_goal_def)
  then show ?thesis
    by (auto simp: is_solved_def is_level_solved_def get_player_and_boxes_marked
        get_goal_positions_marked)
qed

text \<open>
  C3. When \<^verbatim>\<open>detect_freeze_deadlocks\<close> returns true on a state (with the boxes and
  goals of its matrix), no sequence of accepted moves from that state, steps or pushes,
  ends in a solved state.
\<close>

theorem freeze_deadlock_sound:
  assumes "detect_freeze_deadlocks m (snd (get_player_and_boxes_positions m))
             (get_goal_positions m) = Inr True"
    and "replay m path = Inr (Some m')"
  shows "\<not> is_solved m'"
proof -
  from assms(1) have "detect_freeze_deadlocks m (marked is_box m) (marked is_goal m) = Inr True"
    by (simp add: get_player_and_boxes_marked get_goal_positions_marked)
  from detect_freeze_frozen [OF this subset_refl] obtain T b where "b \<in> T" "frozen m T" by blast
  with frozen_replay [OF _ assms(2)] frozen_not_solved show ?thesis by blast
qed

text \<open>A box walled in on all four sides; the player walks to the goal.\<close>

definition WALLED_IN :: matrix where
  "WALLED_IN =
     [''#####'',
      ''#$#.#'',
      ''##@ #'',
      ''#####'']"

lemma WALLED_IN_flagged:
  "detect_freeze_deadlocks WALLED_IN (snd (get_player_and_boxes_positions WALLED_IN))
     (get_goal_positions WALLED_IN) = Inr True"
  by code_simp

lemma WALLED_IN_replay:
  "replay WALLED_IN ''RU'' = Inr (Some [''#####'', ''#$#+#'', ''##  #'', ''#####''])"
  by code_simp

theorem freeze_deadlock_sound_witness:
  "detect_freeze_deadlocks WALLED_IN (snd (get_player_and_boxes_positions WALLED_IN))
     (get_goal_positions WALLED_IN) = Inr True
   \<and> replay WALLED_IN ''RU'' = Inr (Some [''#####'', ''#$#+#'', ''##  #'', ''#####''])
   \<and> \<not> is_solved [''#####'', ''#$#+#'', ''##  #'', ''#####'']"
  using freeze_deadlock_sound [OF WALLED_IN_flagged WALLED_IN_replay]
    WALLED_IN_flagged WALLED_IN_replay by simp

section \<open>The returned path is shortest among unflagged solutions (C2)\<close>

text \<open>
  The solver identifies a state with the pair of the player position and the sorted box
  positions. Among the grids that a sequence of moves reaches from an initial grid \<open>m0\<close>
  with one player marker, this pair determines the grid: such a grid has the shape of
  \<open>m0\<close>, the same goals, the same cells wherever \<open>m0\<close> holds none of the six codes
  of floor, goal, box and player, and one player marker.
\<close>

definition open_code :: "char \<Rightarrow> bool" where
  "open_code ch = (ch = FLOOR \<or> ch = GOAL \<or> ch = BOX \<or> ch = BOX_ON_GOAL \<or> ch = PLAYER
                \<or> ch = PLAYER_ON_GOAL)"











lemma length_nth_upd [simp]: "length (upd m r c v ! i) = length (m ! i)"
proof (cases "nat r < length m")
  case True
  then show ?thesis by (cases "i = nat r") (simp_all add: upd_def)
next
  case False
  then show ?thesis by (simp add: upd_def list_update_beyond)
qed



lemma mark_open_code [simp]:
  "open_code (vacated ch)" "open_code (player_mark ch)" "open_code (box_mark ch)"
  "is_player ch \<Longrightarrow> open_code ch" "is_box ch \<Longrightarrow> open_code ch" "open_code FLOOR" "open_code GOAL"
  by (auto simp: open_code_def vacated_def player_mark_def box_mark_def is_player_def is_box_def)





































end
